theory Spec2Isabelle
  imports Main
begin

section \<open>Token renderer (src/lib/tokens.js)\<close>

text \<open>
  JavaScript strings are modelled as \<open>string\<close> restricted to ASCII text: case
  conversion touches the letters a-z and A-Z only, and white space is the ASCII white
  space that \<open>String.prototype.trim\<close> removes (tab, line feed, vertical tab, form feed,
  carriage return, space).

  A template variable is a string or \<open>null\<close>; a variable mapping is an association list
  whose first binding of a key is the object's property.
\<close>

datatype jsval = JNull | JStr string

type_synonym vars = "(string \<times> jsval) list"

definition is_space :: "char \<Rightarrow> bool" where
  "is_space c = (c \<in> set [CHR 0x09, CHR 0x0A, CHR 0x0B, CHR 0x0C, CHR 0x0D, CHR '' ''])"

definition js_trim :: "string \<Rightarrow> string" where
  "js_trim s = rev (dropWhile is_space (rev (dropWhile is_space s)))"

definition to_lower_char :: "char \<Rightarrow> char" where
  "to_lower_char c =
     (let n = (of_char c :: nat) in if 65 \<le> n \<and> n \<le> 90 then char_of (n + 32) else c)"

definition to_upper_char :: "char \<Rightarrow> char" where
  "to_upper_char c =
     (let n = (of_char c :: nat) in if 97 \<le> n \<and> n \<le> 122 then char_of (n - 32) else c)"

definition toLowerCase :: "string \<Rightarrow> string" where
  "toLowerCase s = map to_lower_char s"

definition toUpperCase :: "string \<Rightarrow> string" where
  "toUpperCase s = map to_upper_char s"

fun starts_with :: "string \<Rightarrow> string \<Rightarrow> bool" where
  "starts_with [] s = True"
| "starts_with (p # ps) [] = False"
| "starts_with (p # ps) (c # cs) = (p = c \<and> starts_with ps cs)"

text \<open>\<open>index_from pat s k\<close>: the first position of \<open>pat\<close> in \<open>s\<close>, counted from \<open>k\<close>.\<close>

fun index_from :: "string \<Rightarrow> string \<Rightarrow> nat \<Rightarrow> nat option" where
  "index_from pat [] k = (if pat = [] then Some k else None)"
| "index_from pat (c # cs) k =
     (if starts_with pat (c # cs) then Some k else index_from pat cs (Suc k))"

text \<open>\<open>s.indexOf(pat, i)\<close>; \<open>None\<close> is the result -1.\<close>

definition indexOf :: "string \<Rightarrow> string \<Rightarrow> nat \<Rightarrow> nat option" where
  "indexOf s pat i = index_from pat (drop i s) (min i (length s))"

text \<open>\<open>s.slice(i, j)\<close> for non-negative indices (empty when \<open>j \<le> i\<close>).\<close>

definition slice :: "string \<Rightarrow> nat \<Rightarrow> nat \<Rightarrow> string" where
  "slice s i j = take (j - i) (drop i s)"

text \<open>The inner loop of lines 28-41: split \<open>raw\<close> at every \<open>|\<close>, trimming each part.\<close>

fun split_parts :: "string \<Rightarrow> string \<Rightarrow> string list" where
  "split_parts [] buf = [js_trim buf]"
| "split_parts (ch # raw) buf =
     (if ch = CHR ''|'' then js_trim buf # split_parts raw []
      else split_parts raw (buf @ [ch]))"

definition is_transform :: "string \<Rightarrow> bool" where
  "is_transform low = (low \<in> set [''upper'', ''lower'', ''title'', ''trim''])"

text \<open>
  Lines 44-50: the modifiers are scanned once; a transform word (compared in lower case)
  is appended to \<open>transforms\<close>, the first other modifier becomes \<open>def\<close>, later ones are
  dropped.
\<close>

fun scan_mods :: "string list \<Rightarrow> string option \<Rightarrow> string list \<Rightarrow> string option \<times> string list" where
  "scan_mods [] def transforms = (def, transforms)"
| "scan_mods (p # ps) def transforms =
     (let low = toLowerCase p in
      if is_transform low then scan_mods ps def (transforms @ [low])
      else if def = None then scan_mods ps (Some p) transforms
      else scan_mods ps def transforms)"

text \<open>\<open>s.split(" ")\<close> and \<open>words.join(" ")\<close>.\<close>

fun split_space :: "string \<Rightarrow> string \<Rightarrow> string list" where
  "split_space [] buf = [buf]"
| "split_space (ch # s) buf =
     (if ch = CHR '' '' then buf # split_space s [] else split_space s (buf @ [ch]))"

fun join_space :: "string list \<Rightarrow> string" where
  "join_space [] = []"
| "join_space [w] = w"
| "join_space (w # ws) = w @ '' '' @ join_space ws"

definition title_word :: "string \<Rightarrow> string" where
  "title_word word =
     (case word of [] \<Rightarrow> [] | c # cs \<Rightarrow> to_upper_char c # toLowerCase cs)"

definition title_case :: "string \<Rightarrow> string" where
  "title_case s = join_space (map title_word (split_space s []))"

text \<open>Lines 56-68: one transform.\<close>

definition apply_transform :: "string \<Rightarrow> string \<Rightarrow> string" where
  "apply_transform s t =
     (if t = ''trim'' then js_trim s
      else if t = ''upper'' then toUpperCase s
      else if t = ''lower'' then toLowerCase s
      else if t = ''title'' then title_case s
      else s)"

text \<open>
  Lines 25-68: the text of one placeholder, from the characters between the braces.
  \<open>parts.shift() || ""\<close> is the name; the value is the variable when it is an own
  property that is neither \<open>null\<close> nor empty, otherwise \<open>def\<close>, otherwise empty.
\<close>

definition resolve_token :: "string \<Rightarrow> vars \<Rightarrow> string" where
  "resolve_token inner vars =
     (let raw = js_trim inner;
          parts = split_parts raw [];
          name = (case parts of [] \<Rightarrow> [] | p # _ \<Rightarrow> p);
          (def, transforms) = scan_mods (tl parts) None [];
          val = (case map_of vars name of
                   Some (JStr v) \<Rightarrow> if v = [] then None else Some v
                 | _ \<Rightarrow> None);
          s = (case val of Some v \<Rightarrow> v
               | None \<Rightarrow> (case def of Some d \<Rightarrow> d | None \<Rightarrow> []))
      in foldl apply_transform s transforms)"

text \<open>Lines 11-72: the scanning loop, with the index \<open>i\<close> and the output so far.\<close>

function fill_loop :: "string \<Rightarrow> vars \<Rightarrow> nat \<Rightarrow> string \<Rightarrow> string" where
  "fill_loop template vars i out =
     (if i < length template then
        (case indexOf template ''{{'' i of
           None \<Rightarrow> out @ drop i template
         | Some start \<Rightarrow>
             (case indexOf template ''}}'' (start + 2) of
                None \<Rightarrow> out @ slice template i start @ drop start template
              | Some end \<Rightarrow>
                  fill_loop template vars (end + 2)
                    (out @ slice template i start
                         @ resolve_token (slice template (start + 2) end) vars)))
      else out)"
  by pat_completeness auto
termination
proof (relation "measure (\<lambda>(t, v, i, out). Suc (length t) - i)")
  show "wf (measure (\<lambda>(t, v, i, out). Suc (length t) - i))" by simp
next
  fix template :: string and vars :: vars and i :: nat and out :: string
    and start e :: nat
  assume lt: "i < length template"
    and s: "indexOf template ''{{'' i = Some start"
    and e: "indexOf template ''}}'' (start + 2) = Some e"
  have ge: "index_from pat u k = Some j \<Longrightarrow> k \<le> j" for pat u k j
    by (induction u arbitrary: k) (auto split: if_splits dest: Suc_leD)
  from s lt have "i \<le> start"
    unfolding indexOf_def by (auto dest: ge)
  moreover from e have "start + 2 < length template"
    unfolding indexOf_def by (cases "start + 2 < length template") auto
  with e have "start + 2 \<le> e"
    unfolding indexOf_def by (auto dest: ge)
  ultimately show "((template, vars, e + 2, out @ slice template i start
                       @ resolve_token (slice template (start + 2) e) vars),
                    (template, vars, i, out))
                   \<in> measure (\<lambda>(t, v, i, out). Suc (length t) - i)"
    using lt by auto
qed

declare fill_loop.simps [simp del]

text \<open>Lines 6-75.\<close>

definition fillTokens :: "string \<Rightarrow> vars \<Rightarrow> string" where
  "fillTokens template vars = (if template = [] then [] else fill_loop template vars 0 [])"


section \<open>Campaign store (src/lib/marketing.js, schema of lines 130-205)\<close>

text \<open>
  The module \<open>src/lib/marketing.js\<close> is the second part of the file
  \<open>src/lib/extract.js\<close> of the sources; the line numbers below are those of that file.

  A \<open>Date\<close> is the number of milliseconds since the epoch; the text that
  \<open>toISOString\<close> prints for it orders as the number does (for the years 0 to 9999), so
  the TEXT columns holding timestamps are modelled by that number.
\<close>

type_synonym time = int

definition minute_ms :: int where "minute_ms = 60000"
definition hour_ms :: int where "hour_ms = 3600000"
definition day_ms :: int where "day_ms = 86400000"

text \<open>
  \<open>Number(x)\<close> of a configuration text: an integer, or \<open>NaN\<close> (fractional values are
  outside the model).
\<close>

datatype jsnum = NaN | Num int

text \<open>A date built from a caller's text: \<open>new Date(text)\<close> may be an Invalid Date.\<close>

datatype jsdate = InvalidDate | Date time

text \<open>
  \<open>TimeClip\<close>: a \<open>Date\<close> holds at most 8 640 000 000 000 000 ms on either side of the
  epoch; a setter whose result leaves that range makes the date an Invalid Date.
\<close>

definition max_time :: int where "max_time = 8640000000000000"

definition TimeClip :: "int \<Rightarrow> jsdate" where
  "TimeClip t = (if - max_time \<le> t \<and> t \<le> max_time then Date t else InvalidDate)"

text \<open>
  What the code can throw: \<open>toISOString\<close> of an Invalid Date, the rejection of the
  mailer's promise, and the primary-key violation of an \<open>INSERT\<close>.
\<close>

datatype error = RangeError | TransportError | ConstraintError

text \<open>The values of the \<open>status\<close> column of an enrollment (line 162).\<close>

datatype enr_status = Active | Completed | Paused | Error

datatype variant = A | B

record contact =
  contact_id :: string
  contact_email :: "string option"
  contact_first_name :: "string option"
  contact_last_name :: "string option"
  contact_company :: "string option"

text \<open>The columns of \<open>marketing_campaign_steps\<close> that the scheduler reads.\<close>

record step =
  step_campaign_id :: string
  step_order :: int
  step_delay_minutes :: "int option"
  step_subject :: "string option"
  step_body :: "string option"
  step_subject_b :: "string option"
  step_body_b :: "string option"
  step_weight_b :: "int option"

text \<open>
  \<open>data_json\<close> is written by \<open>JSON.stringify\<close> of a caller's object and read back by
  \<open>JSON.parse\<close>; it is modelled by the variable mapping it encodes.
\<close>

record enrollment =
  enr_id :: string
  enr_campaign_id :: string
  enr_contact_id :: string
  enr_status :: enr_status
  enr_next_step_order :: int
  enr_next_run_at :: time
  enr_last_sent_at :: "time option"
  enr_variant_json :: "string option"
  enr_data_json :: "vars option"
  enr_created_at :: time
  enr_updated_at :: time

record send =
  send_id :: string
  send_contact_id :: string
  send_campaign_id :: string
  send_step_order :: int
  send_provider :: string
  send_provider_id :: "string option"
  send_status :: string
  send_subject :: string
  send_body :: string
  send_to_email :: "string option"
  send_meta :: variant
  send_sent_at :: time
  send_updated_at :: time

record suppression =
  supp_contact_id :: string
  supp_reason :: string

text \<open>
  \<open>marketing_config\<close> is a key-value table of text. Each key the scheduler uses is a
  field: \<open>None\<close> when the row is absent or its value is NULL or empty, otherwise the
  number that \<open>Number(value)\<close> reads. The hour bucket \<open>YYYY-M-D-H\<close> (UTC) is modelled by
  the index of that hour, \<open>stamp div hour_ms\<close>, which it determines and is determined by.
\<close>

record config =
  quiet_start :: "jsnum option"
  quiet_end :: "jsnum option"
  rate_per_hour :: "jsnum option"
  rate_bucket :: "int option"
  rate_count :: "jsnum option"

record store =
  marketing_config :: config
  contacts :: "contact list"
  marketing_campaign_steps :: "step list"
  marketing_enrollments :: "enrollment list"
  marketing_sends :: "send list"
  marketing_suppressions :: "suppression list"

text \<open>Lines 207-212: the defaults written when a key is missing or empty.\<close>

definition ensureMarketingSchema :: "store \<Rightarrow> store" where
  "ensureMarketingSchema d =
     (let c = marketing_config d;
          c1 = (if quiet_start c = None then c\<lparr>quiet_start := Some (Num 9)\<rparr> else c);
          c2 = (if quiet_end c1 = None then c1\<lparr>quiet_end := Some (Num 18)\<rparr> else c1);
          c3 = (if rate_per_hour c2 = None then c2\<lparr>rate_per_hour := Some (Num 200)\<rparr> else c2)
      in d\<lparr>marketing_config := c3\<rparr>)"

section \<open>Enrolling contacts (lines 261-287)\<close>

text \<open>\<open>COALESCE(MIN(delay_minutes), 0)\<close> over the steps of the campaign; NULLs are skipped.\<close>

definition min_delay :: "step list \<Rightarrow> string \<Rightarrow> int" where
  "min_delay ss campaignId =
     (case List.map_filter (\<lambda>s. if step_campaign_id s = campaignId then step_delay_minutes s else None) ss of
        [] \<Rightarrow> 0
      | x # xs \<Rightarrow> fold min xs x)"

text \<open>
  \<open>date.setMinutes(date.getMinutes() + m)\<close>: an Invalid Date stays one, and a date
  moved out of the range of \<open>Date\<close> becomes one. The date moves by \<open>m\<close> minutes, for
  delays that span no change of the local offset.
\<close>

definition add_minutes :: "jsdate \<Rightarrow> int \<Rightarrow> jsdate" where
  "add_minutes dt m =
     (case dt of InvalidDate \<Rightarrow> InvalidDate | Date t \<Rightarrow> TimeClip (t + m * minute_ms))"

text \<open>
  \<open>INSERT OR IGNORE\<close>: the row is dropped when its primary key or its
  (campaign_id, contact_id) pair is already in the table.
\<close>

definition insert_or_ignore :: "enrollment \<Rightarrow> enrollment list \<Rightarrow> enrollment list" where
  "insert_or_ignore row tbl =
     (if list_ex (\<lambda>r. enr_id r = enr_id row
                      \<or> (enr_campaign_id r = enr_campaign_id row \<and> enr_contact_id r = enr_contact_id row)) tbl
      then tbl else tbl @ [row])"

record enroll_result =
  created :: nat
  next_run_at :: time

text \<open>
  Lines 280-285: the loop over \<open>contactIds\<close>; \<open>cuid k\<close> is the identifier drawn for the
  \<open>k\<close>-th contact.
\<close>

fun enroll_loop ::
  "(nat \<Rightarrow> string) \<Rightarrow> string \<Rightarrow> (string \<times> vars) list \<Rightarrow> time \<Rightarrow> time \<Rightarrow> nat
     \<Rightarrow> string list \<Rightarrow> enrollment list \<times> nat \<Rightarrow> enrollment list \<times> nat" where
  "enroll_loop cuid campaignId varsByContact nextRunISO now k [] (tbl, n) = (tbl, n)"
| "enroll_loop cuid campaignId varsByContact nextRunISO now k (cid # cids) (tbl, n) =
     enroll_loop cuid campaignId varsByContact nextRunISO now (Suc k) cids
       (insert_or_ignore
          \<lparr>enr_id = cuid k, enr_campaign_id = campaignId, enr_contact_id = cid,
           enr_status = Active, enr_next_step_order = 1, enr_next_run_at = nextRunISO,
           enr_last_sent_at = None, enr_variant_json = None,
           enr_data_json = map_of varsByContact cid,
           enr_created_at = now, enr_updated_at = now\<rparr> tbl,
        Suc n)"

text \<open>
  \<open>now\<close> is \<open>nowISO()\<close>; \<open>startAtISO\<close> is \<open>None\<close> for a missing or empty text, otherwise
  the date that \<open>new Date\<close> reads from it. \<open>toISOString\<close> of an Invalid Date throws
  (line 272), before any row is written.
\<close>

definition enrollContacts ::
  "(nat \<Rightarrow> string) \<Rightarrow> time \<Rightarrow> string \<Rightarrow> string list \<Rightarrow> jsdate option \<Rightarrow> (string \<times> vars) list
     \<Rightarrow> store \<Rightarrow> store \<times> (error + enroll_result)" where
  "enrollContacts cuid now campaignId contactIds startAtISO varsByContact d0 =
     (let d = ensureMarketingSchema d0;
          firstDelay = min_delay (marketing_campaign_steps d) campaignId;
          startBase = (case startAtISO of None \<Rightarrow> Date now | Some dt \<Rightarrow> dt);
          nextRun = add_minutes startBase firstDelay
      in case nextRun of
           InvalidDate \<Rightarrow> (d, Inl RangeError)
         | Date nextRunISO \<Rightarrow>
             (let (tbl, n) = enroll_loop cuid campaignId varsByContact nextRunISO now 0 contactIds
                               (marketing_enrollments d, 0)
              in (d\<lparr>marketing_enrollments := tbl\<rparr>,
                  Inr \<lparr>created = n, next_run_at = nextRunISO\<rparr>)))"


section \<open>The scheduler (lines 289-492)\<close>

text \<open>
  What a tick reads from outside the store: the clock (\<open>w_now\<close> at line 359,
  \<open>w_stamp\<close> at line 320, \<open>w_clock i\<close> for the \<open>new Date()\<close> of the \<open>i\<close>-th loop
  iteration), the local time zone of the runtime, the month name of \<open>now\<close> in the
  en-US locale, the
  environment variables, \<open>Math.floor(Math.random() * 100)\<close> and \<open>cuid()\<close> of the
  \<open>i\<close>-th iteration, and the mailer \<open>_sendEmail\<close> (\<open>None\<close> when the module has none).
\<close>

record email_msg =
  msg_from :: "string option"
  msg_to :: "string option"
  msg_subject :: string
  msg_text :: string
  msg_html :: string

record send_result =
  res_ok :: bool
  res_id :: "string option"
  res_provider :: "string option"
  res_status :: "string option"

text \<open>The awaited call either rejects or resolves, possibly to \<open>null\<close>.\<close>

datatype send_outcome = Rejected | Resolved "send_result option"

record world =
  w_now :: time
  w_stamp :: time
  w_clock :: "nat \<Rightarrow> time"
  w_offset :: "time \<Rightarrow> int"
  w_offset_local :: "int \<Rightarrow> int"
  w_month :: string
  w_sender_name :: "string option"
  w_resend_from :: "string option"
  w_sender_email :: "string option"
  w_random :: "nat \<Rightarrow> nat"
  w_cuid :: "nat \<Rightarrow> string"
  w_sendEmail :: "(nat \<Rightarrow> email_msg \<Rightarrow> send_outcome) option"

text \<open>JavaScript truthiness of a text that may be missing.\<close>

definition truthy :: "string option \<Rightarrow> bool" where
  "truthy x = (case x of None \<Rightarrow> False | Some v \<Rightarrow> v \<noteq> [])"

text \<open>\<open>x || y\<close> on texts.\<close>

definition or_else :: "string option \<Rightarrow> string \<Rightarrow> string" where
  "or_else x y = (case x of None \<Rightarrow> y | Some v \<Rightarrow> if v = [] then y else v)"

text \<open>
  The time zone is the pair of conversions that the local getters and setters of \<open>Date\<close>
  go through: \<open>LocalTime\<close> adds to an instant the offset from UTC in force at that
  instant (\<open>w_offset\<close>), and \<open>UTC\<close> takes from a local time the offset that the runtime
  chooses for that local time (\<open>w_offset_local\<close>). Nothing is assumed of the two: the
  offset may change from one day to the next, as it does with daylight saving.
\<close>

definition LocalTime :: "world \<Rightarrow> time \<Rightarrow> int" where
  "LocalTime w t = t + w_offset w t"

definition UTC :: "world \<Rightarrow> int \<Rightarrow> time" where
  "UTC w x = x - w_offset_local w x"

text \<open>\<open>now.getHours()\<close>: the hour of the day in local time.\<close>

definition getHours :: "world \<Rightarrow> time \<Rightarrow> int" where
  "getHours w t = (LocalTime w t div hour_ms) mod 24"

text \<open>Lines 292-299.\<close>

definition withinQuietHours :: "world \<Rightarrow> time \<Rightarrow> jsnum \<Rightarrow> jsnum \<Rightarrow> bool" where
  "withinQuietHours w now startHour endHour =
     (let h = getHours w now in
      case (startHour, endHour) of
        (Num s, Num e) \<Rightarrow> if s \<le> e then s \<le> h \<and> h < e else s \<le> h \<or> h < e
      | _ \<Rightarrow> True)"

text \<open>
  Lines 431-434, on the fresh date \<open>t\<close>. \<open>setDate(getDate() + 1)\<close> moves the local time
  one day on and stores the instant that the runtime gives to it; \<open>setHours(startH, 0, 0, 0)\<close>
  reads that instant back in local time, keeps its day, sets the time of day, and stores the
  instant of the result. Each setter clips what it stores to the range of \<open>Date\<close>.
\<close>

definition tomorrow_at :: "world \<Rightarrow> time \<Rightarrow> int \<Rightarrow> jsdate" where
  "tomorrow_at w t startH =
     (case TimeClip (UTC w (LocalTime w t + day_ms)) of
        InvalidDate \<Rightarrow> InvalidDate
      | Date u \<Rightarrow> TimeClip (UTC w ((LocalTime w u div day_ms) * day_ms + startH * hour_ms)))"

text \<open>Lines 301-306; \<open>r\<close> is \<open>Math.floor(Math.random() * 100)\<close>.\<close>

definition chooseVariant :: "nat \<Rightarrow> step \<Rightarrow> variant" where
  "chooseVariant r step =
     (let w = (case step_weight_b step of None \<Rightarrow> 0 | Some x \<Rightarrow> x) in
      if \<not> truthy (step_subject_b step) \<and> \<not> truthy (step_body_b step) then A
      else if int r < w then B else A)"

text \<open>\<open>text.replace(/\n/g, "<br/>")\<close>.\<close>

definition nl_to_br :: "string \<Rightarrow> string" where
  "nl_to_br s = concat (map (\<lambda>c. if c = CHR 0x0A then ''<br/>'' else [c]) s)"

record content =
  content_subject :: string
  content_text :: string
  content_html :: string

text \<open>Lines 308-314.\<close>

definition buildContent :: "step \<Rightarrow> variant \<Rightarrow> vars \<Rightarrow> content" where
  "buildContent step v vars =
     (let subj = (if v = B \<and> truthy (step_subject_b step) then step_subject_b step else step_subject step);
          bdy = (if v = B \<and> truthy (step_body_b step) then step_body_b step else step_body step);
          subject = fillTokens (or_else subj []) vars;
          txt = fillTokens (or_else bdy []) vars
      in \<lparr>content_subject = subject, content_text = txt, content_html = nl_to_br txt\<rparr>)"

subsection \<open>Rate limiter (lines 316-348)\<close>

text \<open>\<open>a + n\<close> and \<open>a > b\<close> on numbers that may be \<open>NaN\<close>.\<close>

definition js_add :: "jsnum \<Rightarrow> int \<Rightarrow> jsnum" where
  "js_add a n = (case a of NaN \<Rightarrow> NaN | Num x \<Rightarrow> Num (x + n))"

definition js_gt :: "jsnum \<Rightarrow> jsnum \<Rightarrow> bool" where
  "js_gt a b = (case (a, b) of (Num x, Num y) \<Rightarrow> x > y | _ \<Rightarrow> False)"

text \<open>The variables that the closure \<open>take\<close> captures.\<close>

record limiter =
  allowed :: jsnum
  curCount :: jsnum

text \<open>Line 331: the count that the table holds, \<open>Number(value || "0")\<close>.\<close>

definition stored_count :: "config \<Rightarrow> jsnum" where
  "stored_count cfg = (case rate_count cfg of None \<Rightarrow> Num 0 | Some v \<Rightarrow> v)"

text \<open>Lines 316-338: what \<open>rateLimiterState\<close> does before it returns the closure.\<close>

definition rateLimiterState :: "time \<Rightarrow> config \<Rightarrow> config \<times> limiter" where
  "rateLimiterState stamp cfg =
     (let allowd = (case rate_per_hour cfg of None \<Rightarrow> Num 200 | Some v \<Rightarrow> v);
          bucket = stamp div hour_ms;
          cnt = stored_count cfg
      in if rate_bucket cfg \<noteq> Some bucket
         then (cfg\<lparr>rate_bucket := Some bucket, rate_count := Some (Num 0)\<rparr>,
               \<lparr>allowed = allowd, curCount = Num 0\<rparr>)
         else (cfg, \<lparr>allowed = allowd, curCount = cnt\<rparr>))"

text \<open>Lines 340-345: \<open>take(n)\<close>, on the captured variables and the configuration table.\<close>

definition limiter_take :: "int \<Rightarrow> config \<times> limiter \<Rightarrow> bool \<times> config \<times> limiter" where
  "limiter_take n cl =
     (let (cfg, l) = cl in
      if js_gt (js_add (curCount l) n) (allowed l) then (False, cfg, l)
      else (True, cfg\<lparr>rate_count := Some (js_add (curCount l) n)\<rparr>,
                  l\<lparr>curCount := js_add (curCount l) n\<rparr>))"

text \<open>\<open>k\<close> consecutive calls \<open>take(1)\<close> of one limiter: their results, and the state left.\<close>

fun take_seq :: "nat \<Rightarrow> config \<times> limiter \<Rightarrow> bool list \<times> config \<times> limiter" where
  "take_seq 0 cl = ([], cl)"
| "take_seq (Suc k) cl =
     (case limiter_take 1 cl of
        (ok, cl') \<Rightarrow> (case take_seq k cl' of (oks, cl'') \<Rightarrow> (ok # oks, cl'')))"

subsection \<open>Prepared statements (lines 368-399)\<close>

text \<open>\<open>LIMIT ?\<close>: a negative limit is no limit.\<close>

definition sql_limit :: "int \<Rightarrow> 'a list \<Rightarrow> 'a list" where
  "sql_limit n xs = (if n < 0 then xs else take (nat n) xs)"

text \<open>
  The due enrollments joined with their contact (\<open>contacts.id\<close> is the primary key),
  oldest \<open>next_run_at\<close> first; rows with equal \<open>next_run_at\<close> stay in table order.
\<close>

definition select_due :: "store \<Rightarrow> time \<Rightarrow> int \<Rightarrow> (enrollment \<times> contact) list" where
  "select_due d nowISO batch =
     sql_limit batch
       (sort_key (\<lambda>ec. enr_next_run_at (fst ec))
          (List.map_filter
             (\<lambda>e. if enr_status e = Active \<and> enr_next_run_at e \<le> nowISO
                  then map_option (Pair e) (find (\<lambda>c. contact_id c = enr_contact_id e) (contacts d))
                  else None)
             (marketing_enrollments d)))"

definition stepQuery :: "store \<Rightarrow> string \<Rightarrow> int \<Rightarrow> step option" where
  "stepQuery d campaignId ord =
     find (\<lambda>s. step_campaign_id s = campaignId \<and> step_order s = ord) (marketing_campaign_steps d)"

definition updEnroll :: "int \<Rightarrow> time \<Rightarrow> time option \<Rightarrow> time \<Rightarrow> string \<Rightarrow> store \<Rightarrow> store" where
  "updEnroll nextStepOrder nextRunAt lastSentAt updatedAt eid d =
     d\<lparr>marketing_enrollments :=
         map (\<lambda>r. if enr_id r = eid
                  then r\<lparr>enr_next_step_order := nextStepOrder, enr_next_run_at := nextRunAt,
                         enr_last_sent_at := lastSentAt, enr_updated_at := updatedAt\<rparr>
                  else r)
             (marketing_enrollments d)\<rparr>"

definition markDone :: "time \<Rightarrow> string \<Rightarrow> store \<Rightarrow> store" where
  "markDone updatedAt eid d =
     d\<lparr>marketing_enrollments :=
         map (\<lambda>r. if enr_id r = eid then r\<lparr>enr_status := Completed, enr_updated_at := updatedAt\<rparr> else r)
             (marketing_enrollments d)\<rparr>"

text \<open>A plain \<open>INSERT\<close>: a primary key already in the table makes the statement throw.\<close>

definition insSend :: "send \<Rightarrow> store \<Rightarrow> store option" where
  "insSend row d =
     (if list_ex (\<lambda>r. send_id r = send_id row) (marketing_sends d) then None
      else Some (d\<lparr>marketing_sends := marketing_sends d @ [row]\<rparr>))"

definition suppressed_get :: "store \<Rightarrow> string \<Rightarrow> bool" where
  "suppressed_get d contactId = list_ex (\<lambda>r. supp_contact_id r = contactId) (marketing_suppressions d)"

subsection \<open>The tick\<close>

record counts =
  processed :: nat
  sent :: nat
  queued :: nat
  suppressed :: nat
  completed :: nat
  skipped_quiet :: nat

text \<open>The variables of the loop: the store, the limiter's captured variables, the counters.\<close>

record tick_state =
  ts_store :: store
  ts_limiter :: limiter
  ts_counts :: counts

datatype flow = Continue tick_state | Break tick_state | Throw error tick_state

text \<open>Lines 121-125.\<close>

definition sendEmailAdapter :: "world \<Rightarrow> nat \<Rightarrow> email_msg \<Rightarrow> send_outcome" where
  "sendEmailAdapter w i msg =
     (case w_sendEmail w of
        Some f \<Rightarrow> f i msg
      | None \<Rightarrow> Resolved (Some \<lparr>res_ok = False, res_id = None, res_provider = Some ''mock'',
                                 res_status = Some ''queued''\<rparr>))"

text \<open>Lines 413 and 483: \<open>Number(stepNext.delay_minutes || 0)\<close>.\<close>

definition delay_of :: "step \<Rightarrow> int" where
  "delay_of st = (case step_delay_minutes st of None \<Rightarrow> 0 | Some m \<Rightarrow> m)"

text \<open>Lines 446-452: the snapshot of the enrollment, or the contact's current fields.\<close>

definition compose_vars :: "world \<Rightarrow> enrollment \<Rightarrow> contact \<Rightarrow> vars" where
  "compose_vars w e c =
     (case enr_data_json e of
        Some v \<Rightarrow> v
      | None \<Rightarrow>
          [(''first_name'', JStr (or_else (contact_first_name c) [])),
           (''last_name'', JStr (or_else (contact_last_name c) [])),
           (''company'', JStr (or_else (contact_company c) [])),
           (''month'', JStr (w_month w)),
           (''sender_name'', JStr (or_else (w_sender_name w) ''Team''))])"

text \<open>Lines 457-464: the message handed to the mailer.\<close>

definition compose_msg :: "world \<Rightarrow> contact \<Rightarrow> content \<Rightarrow> email_msg" where
  "compose_msg w c cont =
     \<lparr>msg_from = (if truthy (w_resend_from w) then w_resend_from w
                  else if truthy (w_sender_email w) then w_sender_email w else None),
      msg_to = contact_email c,
      msg_subject = content_subject cont, msg_text = content_text cont,
      msg_html = content_html cont\<rparr>"

text \<open>Line 467: \<open>result?.status || (result?.ok ? "sent" : "queued")\<close>.\<close>

definition result_status :: "send_result option \<Rightarrow> string" where
  "result_status result =
     or_else (case result of None \<Rightarrow> None | Some r \<Rightarrow> res_status r)
       (if (case result of None \<Rightarrow> False | Some r \<Rightarrow> res_ok r) then ''sent'' else ''queued'')"

text \<open>Lines 470-476: the row written to \<open>marketing_sends\<close>.\<close>

definition send_row ::
  "world \<Rightarrow> time \<Rightarrow> nat \<Rightarrow> enrollment \<Rightarrow> contact \<Rightarrow> content \<Rightarrow> variant \<Rightarrow> send_result option \<Rightarrow> send" where
  "send_row w nowISO i e c cont v result =
     \<lparr>send_id = w_cuid w i, send_contact_id = enr_contact_id e,
      send_campaign_id = enr_campaign_id e, send_step_order = enr_next_step_order e,
      send_provider = or_else (case result of None \<Rightarrow> None | Some r \<Rightarrow> res_provider r) ''mock'',
      send_provider_id = (case result of None \<Rightarrow> None
                          | Some r \<Rightarrow> if truthy (res_id r) then res_id r else None),
      send_status = result_status result,
      send_subject = content_subject cont, send_body = content_text cont,
      send_to_email = contact_email c, send_meta = v,
      send_sent_at = nowISO, send_updated_at = nowISO\<rparr>"

text \<open>Line 400: the counters; \<open>count f\<close> is one \<open>++\<close> on the counter that \<open>f\<close> names.\<close>

definition count :: "(counts \<Rightarrow> counts) \<Rightarrow> tick_state \<Rightarrow> tick_state" where
  "count f s = s\<lparr>ts_counts := f (ts_counts s)\<rparr>"

definition inc_processed :: "counts \<Rightarrow> counts" where
  "inc_processed k = k\<lparr>processed := processed k + 1\<rparr>"

definition inc_sent :: "counts \<Rightarrow> counts" where
  "inc_sent k = k\<lparr>sent := sent k + 1\<rparr>"

definition inc_queued :: "counts \<Rightarrow> counts" where
  "inc_queued k = k\<lparr>queued := queued k + 1\<rparr>"

definition inc_suppressed :: "counts \<Rightarrow> counts" where
  "inc_suppressed k = k\<lparr>suppressed := suppressed k + 1\<rparr>"

definition inc_completed :: "counts \<Rightarrow> counts" where
  "inc_completed k = k\<lparr>completed := completed k + 1\<rparr>"

definition inc_skipped_quiet :: "counts \<Rightarrow> counts" where
  "inc_skipped_quiet k = k\<lparr>skipped_quiet := skipped_quiet k + 1\<rparr>"

text \<open>
  Lines 409-418 and 479-488, which differ in the \<open>last_sent_at\<close> they write only: move
  the enrollment to the step of order \<open>next_step_order + 1\<close>, or mark it done when the
  campaign has no step of that order. The new date is the clock reading moved by the
  delay of that step, for delays that keep it in the range of \<open>Date\<close> and span no change
  of the local offset.
\<close>

definition advance :: "world \<Rightarrow> nat \<Rightarrow> time \<Rightarrow> time option \<Rightarrow> enrollment \<Rightarrow> tick_state \<Rightarrow> tick_state" where
  "advance w i nowISO lastSentAt e s =
     (let nextStep = enr_next_step_order e + 1 in
      case stepQuery (ts_store s) (enr_campaign_id e) nextStep of
        Some stepNext \<Rightarrow>
          (let nextAt = w_clock w i + delay_of stepNext * minute_ms
           in s\<lparr>ts_store := updEnroll nextStep nextAt lastSentAt nowISO (enr_id e) (ts_store s)\<rparr>)
      | None \<Rightarrow>
          count inc_completed (s\<lparr>ts_store := markDone nowISO (enr_id e) (ts_store s)\<rparr>))"

text \<open>Lines 402-489: the body of the loop for the \<open>i\<close>-th row \<open>(e, c)\<close> of \<open>due\<close>.\<close>

definition tick_body ::
  "world \<Rightarrow> bool \<Rightarrow> jsnum \<Rightarrow> time \<Rightarrow> nat \<Rightarrow> enrollment \<times> contact \<Rightarrow> tick_state \<Rightarrow> flow" where
  "tick_body w isOkWindow quietStart nowISO i ec s0 =
     (let (e, c) = ec;
          s = count inc_processed s0
      in
      if suppressed_get (ts_store s) (enr_contact_id e) then
        Continue (advance w i nowISO None e (count inc_suppressed s))
      else
        case stepQuery (ts_store s) (enr_campaign_id e) (enr_next_step_order e) of
          None \<Rightarrow>
            Continue (count inc_completed (s\<lparr>ts_store := markDone nowISO (enr_id e) (ts_store s)\<rparr>))
        | Some step \<Rightarrow>
            if \<not> isOkWindow then
              (case quietStart of
                 NaN \<Rightarrow> Throw RangeError s
               | Num startH \<Rightarrow>
                   (case tomorrow_at w (w_clock w i) startH of
                      InvalidDate \<Rightarrow> Throw RangeError s
                    | Date tomorrow \<Rightarrow>
                        Continue
                          (count inc_skipped_quiet
                             (s\<lparr>ts_store := updEnroll (enr_next_step_order e) tomorrow
                                               (enr_last_sent_at e) nowISO (enr_id e) (ts_store s)\<rparr>))))
            else
              (case limiter_take 1 (marketing_config (ts_store s), ts_limiter s) of
                 (False, _) \<Rightarrow> Break s
               | (True, cfg, lim) \<Rightarrow>
                   (let s1 = s\<lparr>ts_store := (ts_store s)\<lparr>marketing_config := cfg\<rparr>, ts_limiter := lim\<rparr>;
                        vars = compose_vars w e c;
                        v = chooseVariant (w_random w i) step;
                        cont = buildContent step v vars
                    in case sendEmailAdapter w i (compose_msg w c cont) of
                         Rejected \<Rightarrow> Throw TransportError s1
                       | Resolved result \<Rightarrow>
                           (let status = result_status result;
                                s2 = (if status = ''sent'' then count inc_sent s1
                                      else count inc_queued s1)
                            in case insSend (send_row w nowISO i e c cont v result) (ts_store s2) of
                                 None \<Rightarrow> Throw ConstraintError s2
                               | Some d \<Rightarrow>
                                   Continue (advance w i nowISO (Some nowISO) e (s2\<lparr>ts_store := d\<rparr>))))))"

text \<open>Lines 402-489: the loop over \<open>due\<close>, from the row of index \<open>i\<close> on.\<close>

fun tick_loop ::
  "world \<Rightarrow> bool \<Rightarrow> jsnum \<Rightarrow> time \<Rightarrow> nat \<Rightarrow> (enrollment \<times> contact) list \<Rightarrow> tick_state \<Rightarrow> flow" where
  "tick_loop w isOkWindow quietStart nowISO i [] s = Continue s"
| "tick_loop w isOkWindow quietStart nowISO i (ec # due) s =
     (case tick_body w isOkWindow quietStart nowISO i ec s of
        Continue s' \<Rightarrow> tick_loop w isOkWindow quietStart nowISO (Suc i) due s'
      | Break s' \<Rightarrow> Break s'
      | Throw err s' \<Rightarrow> Throw err s')"

text \<open>Lines 351-365: what the tick fixes before the loop.\<close>

definition tick_quietStart :: "store \<Rightarrow> jsnum" where
  "tick_quietStart d =
     (case quiet_start (marketing_config (ensureMarketingSchema d)) of None \<Rightarrow> Num 9 | Some v \<Rightarrow> v)"

definition tick_quietEnd :: "store \<Rightarrow> jsnum" where
  "tick_quietEnd d =
     (case quiet_end (marketing_config (ensureMarketingSchema d)) of None \<Rightarrow> Num 18 | Some v \<Rightarrow> v)"

definition tick_isOkWindow :: "world \<Rightarrow> store \<Rightarrow> bool" where
  "tick_isOkWindow w d = withinQuietHours w (w_now w) (tick_quietStart d) (tick_quietEnd d)"

text \<open>The state in which the loop starts: the schema defaults and the limiter are in place.\<close>

definition tick_init :: "world \<Rightarrow> store \<Rightarrow> tick_state" where
  "tick_init w d0 =
     (let d = ensureMarketingSchema d0;
          (cfg, lim) = rateLimiterState (w_stamp w) (marketing_config d)
      in \<lparr>ts_store = d\<lparr>marketing_config := cfg\<rparr>, ts_limiter = lim,
          ts_counts = \<lparr>processed = 0, sent = 0, queued = 0, suppressed = 0, completed = 0,
                       skipped_quiet = 0\<rparr>\<rparr>)"

definition tick_due :: "world \<Rightarrow> int \<Rightarrow> store \<Rightarrow> (enrollment \<times> contact) list" where
  "tick_due w batch d0 = select_due (ts_store (tick_init w d0)) (w_now w) batch"

text \<open>
  Lines 350-492. The store keeps what was written before an exception; the counts are
  returned when the loop ends or breaks.
\<close>

definition marketingTick :: "world \<Rightarrow> int \<Rightarrow> store \<Rightarrow> store \<times> (error + counts)" where
  "marketingTick w batch d0 =
     (case tick_loop w (tick_isOkWindow w d0) (tick_quietStart d0) (w_now w) 0
             (tick_due w batch d0) (tick_init w d0) of
        Continue s \<Rightarrow> (ts_store s, Inr (ts_counts s))
      | Break s \<Rightarrow> (ts_store s, Inr (ts_counts s))
      | Throw err s \<Rightarrow> (ts_store s, Inl err))"

section \<open>Notions used in the statements\<close>

text \<open>The row of the enrollment \<open>eid\<close> in the store.\<close>

definition find_enr :: "store \<Rightarrow> string \<Rightarrow> enrollment option" where
  "find_enr d eid = find (\<lambda>r. enr_id r = eid) (marketing_enrollments d)"

text \<open>Whether the contact is already enrolled in the campaign.\<close>

definition enrolled :: "enrollment list \<Rightarrow> string \<Rightarrow> string \<Rightarrow> bool" where
  "enrolled tbl campaignId cid =
     list_ex (\<lambda>r. enr_campaign_id r = campaignId \<and> enr_contact_id r = cid) tbl"

text \<open>The state that a loop result carries.\<close>

fun flow_state :: "flow \<Rightarrow> tick_state" where
  "flow_state (Continue s) = s"
| "flow_state (Break s) = s"
| "flow_state (Throw err s) = s"

text \<open>
  The tick on the store \<open>d\<close> reaches the row of index \<open>i\<close> of its batch in the state
  \<open>s\<close>: the loop over the rows before it has neither stopped nor thrown.
\<close>

definition tick_reaches :: "world \<Rightarrow> int \<Rightarrow> store \<Rightarrow> nat \<Rightarrow> tick_state \<Rightarrow> bool" where
  "tick_reaches w batch d i s =
     (i < length (tick_due w batch d)
      \<and> tick_loop w (tick_isOkWindow w d) (tick_quietStart d) (w_now w) 0
           (take i (tick_due w batch d)) (tick_init w d) = Continue s)"

text \<open>The body of the loop as the tick on \<open>d\<close> runs it for the row of index \<open>i\<close>.\<close>

definition tick_step :: "world \<Rightarrow> store \<Rightarrow> nat \<Rightarrow> enrollment \<times> contact \<Rightarrow> tick_state \<Rightarrow> flow" where
  "tick_step w d i ec s = tick_body w (tick_isOkWindow w d) (tick_quietStart d) (w_now w) i ec s"

text \<open>
  From the counts \<open>k\<close> to the counts \<open>k'\<close>, at most one of \<open>sent\<close>, \<open>queued\<close>,
  \<open>suppressed\<close> and \<open>skipped_quiet\<close> has been incremented, by one.
\<close>

definition at_most_one_counted :: "counts \<Rightarrow> counts \<Rightarrow> bool" where
  "at_most_one_counted k k' =
     ((sent k', queued k', suppressed k', skipped_quiet k')
        \<in> set [(sent k, queued k, suppressed k, skipped_quiet k),
                (sent k + 1, queued k, suppressed k, skipped_quiet k),
                (sent k, queued k + 1, suppressed k, skipped_quiet k),
                (sent k, queued k, suppressed k + 1, skipped_quiet k),
                (sent k, queued k, suppressed k, skipped_quiet k + 1)])"

section \<open>Example data\<close>

definition ex_cfg :: config where
  "ex_cfg = \<lparr>quiet_start = Some (Num 9), quiet_end = Some (Num 18), rate_per_hour = Some (Num 2),
             rate_bucket = None, rate_count = None\<rparr>"

definition ex_step :: "int \<Rightarrow> int \<Rightarrow> string \<Rightarrow> step" where
  "ex_step ord dly subj =
     \<lparr>step_campaign_id = ''welcome'', step_order = ord, step_delay_minutes = Some dly,
      step_subject = Some subj, step_body = Some ''Hello'', step_subject_b = None,
      step_body_b = None, step_weight_b = None\<rparr>"

definition ex_contact :: "string \<Rightarrow> string \<Rightarrow> contact" where
  "ex_contact cid first =
     \<lparr>contact_id = cid, contact_email = Some (cid @ ''@example.org''),
      contact_first_name = Some first, contact_last_name = None, contact_company = None\<rparr>"

definition ex_enr :: "string \<Rightarrow> string \<Rightarrow> int \<Rightarrow> time \<Rightarrow> enrollment" where
  "ex_enr eid cid ord due_at =
     \<lparr>enr_id = eid, enr_campaign_id = ''welcome'', enr_contact_id = cid, enr_status = Active,
      enr_next_step_order = ord, enr_next_run_at = due_at, enr_last_sent_at = None,
      enr_variant_json = None, enr_data_json = None, enr_created_at = 0, enr_updated_at = 0\<rparr>"

text \<open>A campaign whose first step waits 60 minutes and whose second step waits 0 minutes.\<close>

definition ex_store_delays :: store where
  "ex_store_delays =
     \<lparr>marketing_config = ex_cfg, contacts = [ex_contact ''c1'' ''Alicia''],
      marketing_campaign_steps = [ex_step 1 60 ''Hi'', ex_step 2 0 ''Follow up''],
      marketing_enrollments = [], marketing_sends = [], marketing_suppressions = []\<rparr>"

text \<open>A store in which \<open>c1\<close> is already enrolled in the campaign.\<close>

definition ex_store_enrolled :: store where
  "ex_store_enrolled =
     \<lparr>marketing_config = ex_cfg, contacts = [ex_contact ''c1'' ''Alicia'', ex_contact ''c2'' ''Bob''],
      marketing_campaign_steps = [ex_step 1 0 ''Hi'', ex_step 2 1440 ''Follow up''],
      marketing_enrollments = [ex_enr ''e1'' ''c1'' 2 500], marketing_sends = [],
      marketing_suppressions = []\<rparr>"

text \<open>A campaign whose only step waits 60 minutes.\<close>

definition ex_store_wait :: store where
  "ex_store_wait =
     \<lparr>marketing_config = ex_cfg, contacts = [ex_contact ''c1'' ''Alicia''],
      marketing_campaign_steps = [ex_step 1 60 ''Hi''],
      marketing_enrollments = [], marketing_sends = [], marketing_suppressions = []\<rparr>"

definition ex_cuid :: "nat \<Rightarrow> string" where
  "ex_cuid k = ''id_'' @ replicate k (CHR ''x'')"

text \<open>
  A store for the scheduler: three contacts enrolled in one campaign of two steps, the
  third contact suppressed; the second enrollment is at the last step.
\<close>

definition ex_store_tick :: store where
  "ex_store_tick =
     \<lparr>marketing_config = ex_cfg,
      contacts = [ex_contact ''c1'' ''alicia'', ex_contact ''c2'' ''Bob'', ex_contact ''c3'' ''Carol''],
      marketing_campaign_steps = [ex_step 1 0 ''Hi {{first_name|there|title}}'', ex_step 2 1440 ''Follow up''],
      marketing_enrollments = [ex_enr ''e1'' ''c1'' 1 0, ex_enr ''e2'' ''c2'' 2 100, ex_enr ''e3'' ''c3'' 1 200],
      marketing_sends = [],
      marketing_suppressions = [\<lparr>supp_contact_id = ''c3'', supp_reason = ''unsubscribe''\<rparr>]\<rparr>"

text \<open>The same store with an allowance of one send per hour.\<close>

definition ex_store_rate1 :: store where
  "ex_store_rate1 = ex_store_tick\<lparr>marketing_config := ex_cfg\<lparr>rate_per_hour := Some (Num 1)\<rparr>\<rparr>"

text \<open>
  A tick at 10:00 UTC of day 0, local time being UTC, with no mailer in the module (the
  adapter then answers for it).
\<close>

definition ex_world :: world where
  "ex_world =
     \<lparr>w_now = 10 * hour_ms, w_stamp = 10 * hour_ms, w_clock = (\<lambda>i. 10 * hour_ms + int i),
      w_offset = (\<lambda>t. 0), w_offset_local = (\<lambda>x. 0), w_month = ''January'',
      w_sender_name = None, w_resend_from = None, w_sender_email = None,
      w_random = (\<lambda>i. 50), w_cuid = (\<lambda>i. ''s_'' @ replicate i (CHR ''x'')),
      w_sendEmail = None\<rparr>"

text \<open>The same tick at 21:00, outside the window 9-18.\<close>

definition ex_world_night :: world where
  "ex_world_night =
     ex_world\<lparr>w_now := 21 * hour_ms, w_stamp := 21 * hour_ms, w_clock := (\<lambda>i. 21 * hour_ms + int i)\<rparr>"



text \<open>The configuration table after one send in the hour 10 of day 0.\<close>

definition ex_cfg_used :: config where
  "ex_cfg_used = ex_cfg\<lparr>rate_bucket := Some 10, rate_count := Some (Num 1)\<rparr>"

text \<open>
  A tick that starts one millisecond before 11:00 UTC and whose loop reads the clock after
  11:00.
\<close>

definition ex_world_hour :: world where
  "ex_world_hour =
     ex_world\<lparr>w_now := 11 * hour_ms - 1, w_stamp := 11 * hour_ms - 1,
              w_clock := (\<lambda>i. 11 * hour_ms + 1000 + int i)\<rparr>"





text \<open>The state of the tick on \<open>d\<close> with batch size 50 after its first \<open>i\<close> rows.\<close>

definition ex_state :: "world \<Rightarrow> store \<Rightarrow> nat \<Rightarrow> tick_state" where
  "ex_state w d i =
     flow_state (tick_loop w (tick_isOkWindow w d) (tick_quietStart d) (w_now w) 0
                   (take i (tick_due w 50 d)) (tick_init w d))"


section \<open>Properties of the token renderer\<close>

lemma index_from_ge: "index_from pat s k = Some j \<Longrightarrow> k \<le> j"
  by (induction s arbitrary: k) (auto split: if_splits dest: Suc_leD)


lemma starts_with_length: "starts_with pat s \<Longrightarrow> length pat \<le> length s"
  by (induction pat s rule: starts_with.induct) auto

lemma index_from_le: "index_from pat s k = Some j \<Longrightarrow> j + length pat \<le> k + length s"
proof (induction s arbitrary: k)
  case Nil
  then show ?case by (simp split: if_splits)
next
  case (Cons c cs)
  show ?case
  proof (cases "starts_with pat (c # cs)")
    case True
    with Cons.prems starts_with_length [OF True] show ?thesis by simp
  next
    case False
    with Cons.prems have "index_from pat cs (Suc k) = Some j" by simp
    from Cons.IH [OF this] show ?thesis by simp
  qed
qed


lemma indexOf_bounds:
  assumes "indexOf t pat i = Some j" "pat \<noteq> []"
  shows "i \<le> j \<and> j + length pat \<le> length t"
proof -
  from assms have il: "i < length t"
    unfolding indexOf_def by (cases "i < length t") auto
  from assms(1) have "index_from pat (drop i t) i = Some j"
    unfolding indexOf_def using il by (simp add: min_def)
  from index_from_ge [OF this] index_from_le [OF this] il show ?thesis by auto
qed





lemma fillTokens_no_open: "indexOf t ''{{'' 0 = None \<Longrightarrow> fillTokens t vars = t"
  by (cases "t = []") (simp_all add: fillTokens_def fill_loop.simps [of t vars 0 "[]"])

lemma fillTokens_no_close:
  "indexOf t ''{{'' 0 = Some start \<Longrightarrow> indexOf t ''}}'' (start + 2) = None \<Longrightarrow> fillTokens t vars = t"
  using indexOf_bounds [of t "''{{''" 0 start]
  by (cases "t = []") (simp_all add: fillTokens_def fill_loop.simps [of t vars 0 "[]"] slice_def)









section \<open>Properties of the rate limiter\<close>

lemma rateLimiterState_allowed:
  "rateLimiterState stamp cfg0 = (cfg, l) \<Longrightarrow>
     allowed l = (case rate_per_hour cfg0 of None \<Rightarrow> Num 200 | Some v \<Rightarrow> v)
     \<and> rate_per_hour cfg = rate_per_hour cfg0"
  by (auto simp: rateLimiterState_def Let_def split: if_splits)

lemma rateLimiterState_count:
  "rateLimiterState stamp cfg0 = (cfg, l) \<Longrightarrow> curCount l = stored_count cfg"
  by (auto simp: rateLimiterState_def Let_def stored_count_def split: if_splits)

lemma rateLimiterState_new_hour:
  "rateLimiterState stamp cfg0 = (cfg, l) \<Longrightarrow> rate_bucket cfg0 \<noteq> Some (stamp div hour_ms) \<Longrightarrow>
     curCount l = Num 0 \<and> rate_count cfg = Some (Num 0) \<and> rate_bucket cfg = Some (stamp div hour_ms)"
  by (auto simp: rateLimiterState_def Let_def split: if_splits)

text \<open>A limiter made again in the same hour starts from the count that the table holds.\<close>

lemma rateLimiterState_same_hour:
  "rate_bucket cfg0 = Some (stamp div hour_ms) \<Longrightarrow>
     rateLimiterState stamp cfg0
       = (cfg0, \<lparr>allowed = (case rate_per_hour cfg0 of None \<Rightarrow> Num 200 | Some v \<Rightarrow> v),
                 curCount = stored_count cfg0\<rparr>)"
  by (simp add: rateLimiterState_def Let_def)

lemma limiter_take_num:
  "allowed l = Num N \<Longrightarrow> curCount l = Num c \<Longrightarrow>
     limiter_take n (cfg, l) =
       (if c + n \<le> N
        then (True, cfg\<lparr>rate_count := Some (Num (c + n))\<rparr>, l\<lparr>curCount := Num (c + n)\<rparr>)
        else (False, cfg, l))"
  by (simp add: limiter_take_def js_gt_def js_add_def)

lemma take_seq_exhausted:
  "allowed l = Num N \<Longrightarrow> curCount l = Num c \<Longrightarrow> N < c + 1 \<Longrightarrow>
     take_seq m (cfg, l) = (replicate m False, cfg, l)"
  by (induction m) (simp_all add: limiter_take_num)

lemma take_seq_budget:
  "allowed l = Num N \<Longrightarrow> curCount l = Num c \<Longrightarrow> c + int k = N \<Longrightarrow>
     fst (take_seq (k + m) (cfg, l)) = replicate k True @ replicate m False
     \<and> snd (take_seq (k + m) (cfg, l)) = snd (take_seq k (cfg, l))"
proof (induction k arbitrary: cfg l c)
  case 0
  then show ?case by (simp add: take_seq_exhausted)
next
  case (Suc k)
  let ?cfg = "cfg\<lparr>rate_count := Some (Num (c + 1))\<rparr>" and ?l = "l\<lparr>curCount := Num (c + 1)\<rparr>"
  have t: "limiter_take 1 (cfg, l) = (True, ?cfg, ?l)"
    using limiter_take_num [OF Suc.prems(1,2), of 1 cfg] Suc.prems(3) by simp
  have "fst (take_seq (k + m) (?cfg, ?l)) = replicate k True @ replicate m False
        \<and> snd (take_seq (k + m) (?cfg, ?l)) = snd (take_seq k (?cfg, ?l))"
    using Suc.prems by (intro Suc.IH) auto
  with t show ?case by (simp add: split_beta)
qed

text \<open>
  C5, at one input. The table says that the hour 10 has had no send and the allowance is
  1. The tick starts one millisecond before 11:00, so its limiter is made in the hour 10.
  The first row is sent, and the clock that the loop reads for it (line 482) is already
  in the hour 11. The \<open>take(1)\<close> of the second row comes after that reading, in the hour
  11, in which nothing has been sent: it is refused on the count of the hour 10, and the
  table keeps the key of the hour 10 and the count 1.
\<close>

theorem rate_limiter_new_hour_counterexample:
  "rate_per_hour (marketing_config ex_store_rate1) = Some (Num 1)
   \<and> w_stamp ex_world_hour div hour_ms = 10
   \<and> w_clock ex_world_hour 0 div hour_ms = 11
   \<and> map (\<lambda>r. (enr_id r, enr_next_step_order r, enr_next_run_at r, enr_last_sent_at r))
        (marketing_enrollments (fst (marketingTick ex_world_hour 50 ex_store_rate1)))
       = [(''e1'', 2, w_clock ex_world_hour 0 + 1440 * minute_ms, Some (w_now ex_world_hour)),
          (''e2'', 2, 100, None), (''e3'', 1, 200, None)]
   \<and> ts_limiter (ex_state ex_world_hour ex_store_rate1 1) = \<lparr>allowed = Num 1, curCount = Num 1\<rparr>
   \<and> limiter_take 1 (marketing_config (ts_store (ex_state ex_world_hour ex_store_rate1 1)),
                     ts_limiter (ex_state ex_world_hour ex_store_rate1 1))
       = (False, marketing_config (ts_store (ex_state ex_world_hour ex_store_rate1 1)),
          ts_limiter (ex_state ex_world_hour ex_store_rate1 1))
   \<and> snd (marketingTick ex_world_hour 50 ex_store_rate1)
       = Inr \<lparr>processed = 2, sent = 0, queued = 1, suppressed = 0, completed = 0, skipped_quiet = 0\<rparr>
   \<and> rate_bucket (marketing_config (fst (marketingTick ex_world_hour 50 ex_store_rate1))) = Some 10
   \<and> rate_count (marketing_config (fst (marketingTick ex_world_hour 50 ex_store_rate1)))
       = Some (Num 1)"
  by code_simp

text \<open>
  C5, amended. With the configured allowance \<open>N\<close>: the hour is read when the limiter is
  made, once for a tick, and not by \<open>take\<close>. A limiter made in an hour other than the
  stored one writes the new key and the count 0 and starts from 0; one made in the stored
  hour leaves the table alone and starts from the count \<open>c\<close> that the table holds (0 when
  it holds none). On a limiter that started from \<open>c\<close>, \<open>take(n)\<close> returns true and
  stores \<open>c + n\<close> exactly when \<open>c + n \<le> N\<close>, and otherwise returns false and leaves the
  table (count and bucket key) as it is, whatever the hour of the call. Hence of the
  consecutive calls \<open>take(1)\<close> on a limiter made in a new hour the first \<open>N\<close> succeed and
  the next one fails, and on a limiter made in the stored hour the first \<open>N - c\<close> do.
\<close>

theorem rate_limiter_take:
  assumes cfgN: "rate_per_hour cfg0 = Some (Num N)"
  shows "(rate_bucket cfg0 \<noteq> Some (stamp div hour_ms) \<longrightarrow>
            (\<exists>l. rateLimiterState stamp cfg0
                    = (cfg0\<lparr>rate_bucket := Some (stamp div hour_ms), rate_count := Some (Num 0)\<rparr>, l)
                \<and> limiter_take n
                    (cfg0\<lparr>rate_bucket := Some (stamp div hour_ms), rate_count := Some (Num 0)\<rparr>, l)
                    = (if n \<le> N
                       then (True,
                             cfg0\<lparr>rate_bucket := Some (stamp div hour_ms), rate_count := Some (Num n)\<rparr>,
                             l\<lparr>curCount := Num n\<rparr>)
                       else (False,
                             cfg0\<lparr>rate_bucket := Some (stamp div hour_ms), rate_count := Some (Num 0)\<rparr>,
                             l))
                \<and> (0 \<le> N \<longrightarrow>
                      fst (take_seq (nat N + 1) (rateLimiterState stamp cfg0))
                        = replicate (nat N) True @ [False]
                      \<and> snd (take_seq (nat N + 1) (rateLimiterState stamp cfg0))
                        = snd (take_seq (nat N) (rateLimiterState stamp cfg0)))))
         \<and> (rate_bucket cfg0 = Some (stamp div hour_ms)
              \<and> (case rate_count cfg0 of None \<Rightarrow> Num 0 | Some v \<Rightarrow> v) = Num c \<longrightarrow>
            (\<exists>l. rateLimiterState stamp cfg0 = (cfg0, l)
                \<and> limiter_take n (cfg0, l)
                    = (if c + n \<le> N
                       then (True, cfg0\<lparr>rate_count := Some (Num (c + n))\<rparr>, l\<lparr>curCount := Num (c + n)\<rparr>)
                       else (False, cfg0, l))
                \<and> (c \<le> N \<longrightarrow>
                      fst (take_seq (nat (N - c) + 1) (rateLimiterState stamp cfg0))
                        = replicate (nat (N - c)) True @ [False]
                      \<and> snd (take_seq (nat (N - c) + 1) (rateLimiterState stamp cfg0))
                        = snd (take_seq (nat (N - c)) (rateLimiterState stamp cfg0)))))"
proof (intro conjI impI)
  assume new: "rate_bucket cfg0 \<noteq> Some (stamp div hour_ms)"
  let ?cfg = "cfg0\<lparr>rate_bucket := Some (stamp div hour_ms), rate_count := Some (Num 0)\<rparr>"
  let ?l = "\<lparr>allowed = Num N, curCount = Num 0\<rparr>"
  have st: "rateLimiterState stamp cfg0 = (?cfg, ?l)"
    using new cfgN by (simp add: rateLimiterState_def Let_def)
  have al: "allowed ?l = Num N" and cc: "curCount ?l = Num 0" by simp_all
  have tk: "limiter_take n (?cfg, ?l)
              = (if n \<le> N
                 then (True,
                       cfg0\<lparr>rate_bucket := Some (stamp div hour_ms), rate_count := Some (Num n)\<rparr>,
                       ?l\<lparr>curCount := Num n\<rparr>)
                 else (False, ?cfg, ?l))"
    using limiter_take_num [OF al cc, of n ?cfg] by simp
  have sq: "fst (take_seq (nat N + 1) (rateLimiterState stamp cfg0))
              = replicate (nat N) True @ [False]
            \<and> snd (take_seq (nat N + 1) (rateLimiterState stamp cfg0))
              = snd (take_seq (nat N) (rateLimiterState stamp cfg0))"
    if "0 \<le> N"
  proof -
    from that have e: "0 + int (nat N) = N" by simp
    from take_seq_budget [OF al cc e, of 1 ?cfg] show ?thesis unfolding st by simp
  qed
  from st tk sq
  show "\<exists>l. rateLimiterState stamp cfg0 = (?cfg, l)
          \<and> limiter_take n (?cfg, l)
              = (if n \<le> N
                 then (True,
                       cfg0\<lparr>rate_bucket := Some (stamp div hour_ms), rate_count := Some (Num n)\<rparr>,
                       l\<lparr>curCount := Num n\<rparr>)
                 else (False, ?cfg, l))
          \<and> (0 \<le> N \<longrightarrow>
                fst (take_seq (nat N + 1) (rateLimiterState stamp cfg0))
                  = replicate (nat N) True @ [False]
                \<and> snd (take_seq (nat N + 1) (rateLimiterState stamp cfg0))
                  = snd (take_seq (nat N) (rateLimiterState stamp cfg0)))"
    by (intro exI [where x = ?l] conjI impI) simp_all
next
  assume "rate_bucket cfg0 = Some (stamp div hour_ms)
          \<and> (case rate_count cfg0 of None \<Rightarrow> Num 0 | Some v \<Rightarrow> v) = Num c"
  then have same: "rate_bucket cfg0 = Some (stamp div hour_ms)"
    and cnt: "(case rate_count cfg0 of None \<Rightarrow> Num 0 | Some v \<Rightarrow> v) = Num c"
    by simp_all
  let ?l = "\<lparr>allowed = Num N, curCount = Num c\<rparr>"
  have st: "rateLimiterState stamp cfg0 = (cfg0, ?l)"
    using same cfgN cnt by (simp add: rateLimiterState_def Let_def stored_count_def)
  have al: "allowed ?l = Num N" and cc: "curCount ?l = Num c" by simp_all
  have tk: "limiter_take n (cfg0, ?l)
              = (if c + n \<le> N
                 then (True, cfg0\<lparr>rate_count := Some (Num (c + n))\<rparr>, ?l\<lparr>curCount := Num (c + n)\<rparr>)
                 else (False, cfg0, ?l))"
    by (rule limiter_take_num [OF al cc])
  have sq: "fst (take_seq (nat (N - c) + 1) (rateLimiterState stamp cfg0))
              = replicate (nat (N - c)) True @ [False]
            \<and> snd (take_seq (nat (N - c) + 1) (rateLimiterState stamp cfg0))
              = snd (take_seq (nat (N - c)) (rateLimiterState stamp cfg0))"
    if "c \<le> N"
  proof -
    from that have e: "c + int (nat (N - c)) = N" by simp
    from take_seq_budget [OF al cc e, of 1 cfg0] show ?thesis unfolding st by simp
  qed
  from st tk sq
  show "\<exists>l. rateLimiterState stamp cfg0 = (cfg0, l)
          \<and> limiter_take n (cfg0, l)
              = (if c + n \<le> N
                 then (True, cfg0\<lparr>rate_count := Some (Num (c + n))\<rparr>, l\<lparr>curCount := Num (c + n)\<rparr>)
                 else (False, cfg0, l))
          \<and> (c \<le> N \<longrightarrow>
                fst (take_seq (nat (N - c) + 1) (rateLimiterState stamp cfg0))
                  = replicate (nat (N - c)) True @ [False]
                \<and> snd (take_seq (nat (N - c) + 1) (rateLimiterState stamp cfg0))
                  = snd (take_seq (nat (N - c)) (rateLimiterState stamp cfg0)))"
    by (intro exI [where x = ?l] conjI impI) simp_all
qed

theorem rate_limiter_take_witness:
  "rate_per_hour ex_cfg_used = Some (Num 2)
   \<and> rate_bucket ex_cfg_used = Some (10 * hour_ms div hour_ms)
   \<and> rate_count ex_cfg_used = Some (Num 1)
   \<and> (\<exists>l. rateLimiterState (10 * hour_ms) ex_cfg_used = (ex_cfg_used, l)
         \<and> limiter_take 1 (ex_cfg_used, l)
             = (True, ex_cfg_used\<lparr>rate_count := Some (Num 2)\<rparr>, l\<lparr>curCount := Num 2\<rparr>)
         \<and> limiter_take 2 (ex_cfg_used, l) = (False, ex_cfg_used, l))
   \<and> fst (take_seq 2 (rateLimiterState (10 * hour_ms) ex_cfg_used)) = [True, False]
   \<and> rate_bucket ex_cfg_used \<noteq> Some (11 * hour_ms div hour_ms)
   \<and> fst (rateLimiterState (11 * hour_ms) ex_cfg_used)
       = ex_cfg_used\<lparr>rate_bucket := Some 11, rate_count := Some (Num 0)\<rparr>
   \<and> fst (take_seq 3 (rateLimiterState (11 * hour_ms) ex_cfg_used)) = [True, True, False]"
proof -
  have h1: "rate_per_hour ex_cfg_used = Some (Num 2)" by (simp add: ex_cfg_used_def ex_cfg_def)
  have h2: "rate_bucket ex_cfg_used = Some (10 * hour_ms div hour_ms)"
    by (simp add: ex_cfg_used_def hour_ms_def)
  have h3: "rate_count ex_cfg_used = Some (Num 1)" by (simp add: ex_cfg_used_def)
  have h3': "(case rate_count ex_cfg_used of None \<Rightarrow> Num 0 | Some v \<Rightarrow> v) = Num 1"
    by (simp add: h3)
  have h4: "rate_bucket ex_cfg_used \<noteq> Some (11 * hour_ms div hour_ms)"
    by (simp add: ex_cfg_used_def hour_ms_def)
  have k: "11 * hour_ms div hour_ms = 11" by (simp add: hour_ms_def)
  note S1 = rate_limiter_take [OF h1, of "10 * hour_ms" 1 1, THEN conjunct2, THEN mp, OF conjI [OF h2 h3']]
  note S2 = rate_limiter_take [OF h1, of "10 * hour_ms" 2 1, THEN conjunct2, THEN mp, OF conjI [OF h2 h3']]
  note N1 = rate_limiter_take [OF h1, of "11 * hour_ms" 1 0, THEN conjunct1, THEN mp, OF h4]
  from S1 S2 have a: "\<exists>l. rateLimiterState (10 * hour_ms) ex_cfg_used = (ex_cfg_used, l)
         \<and> limiter_take 1 (ex_cfg_used, l)
             = (True, ex_cfg_used\<lparr>rate_count := Some (Num 2)\<rparr>, l\<lparr>curCount := Num 2\<rparr>)
         \<and> limiter_take 2 (ex_cfg_used, l) = (False, ex_cfg_used, l)"
    by auto
  have le1: "(1::int) \<le> 2" and le0: "(0::int) \<le> 2" by simp_all
  have e1: "nat (2 - 1) + 1 = (2::nat)" and e2: "replicate (nat (2 - 1)) True @ [False] = [True, False]"
    by simp_all
  have e3: "nat 2 + 1 = (3::nat)" and e4: "replicate (nat 2) True @ [False] = [True, True, False]"
    by (simp_all add: numeral_2_eq_2)
  from S1 le1 have "fst (take_seq (nat (2 - 1) + 1) (rateLimiterState (10 * hour_ms) ex_cfg_used))
                      = replicate (nat (2 - 1)) True @ [False]"
    by blast
  then have b: "fst (take_seq 2 (rateLimiterState (10 * hour_ms) ex_cfg_used)) = [True, False]"
    unfolding e1 e2 .
  from N1 have c: "fst (rateLimiterState (11 * hour_ms) ex_cfg_used)
                     = ex_cfg_used\<lparr>rate_bucket := Some 11, rate_count := Some (Num 0)\<rparr>"
    unfolding k by auto
  from N1 le0 have "fst (take_seq (nat 2 + 1) (rateLimiterState (11 * hour_ms) ex_cfg_used))
                      = replicate (nat 2) True @ [False]"
    by blast
  then have d: "fst (take_seq 3 (rateLimiterState (11 * hour_ms) ex_cfg_used))
                        = [True, True, False]"
    unfolding e3 e4 .
  from h1 h2 h3 a b h4 c d show ?thesis by blast
qed

section \<open>Properties of enrolling\<close>

lemma insert_or_ignore_cases:
  "insert_or_ignore row tbl = tbl \<or> insert_or_ignore row tbl = tbl @ [row]"
  by (simp add: insert_or_ignore_def)

lemma insert_or_ignore_enrolled:
  "enrolled tbl (enr_campaign_id row) (enr_contact_id row) \<Longrightarrow> insert_or_ignore row tbl = tbl"
  by (auto simp: insert_or_ignore_def enrolled_def list_ex_iff)

lemma enrolled_mono: "enrolled tbl c x \<Longrightarrow> enrolled (tbl @ new) c x"
  by (auto simp: enrolled_def list_ex_iff)

text \<open>
  The loop counts every contact id, appends at most one row for each, appends none for
  a contact that is already enrolled, and writes the same seed into every row.
\<close>

lemma enroll_loop_result:
  "enroll_loop cuid campaignId varsByContact nextRunISO now k cids (tbl, n) = (tbl', n') \<Longrightarrow>
     n' = n + length cids
     \<and> (\<exists>new. tbl' = tbl @ new \<and> length new \<le> length cids
          \<and> ((\<exists>cid \<in> set cids. enrolled tbl campaignId cid) \<longrightarrow> length new < length cids)
          \<and> (\<forall>r \<in> set new. enr_status r = Active \<and> enr_next_step_order r = 1
                \<and> enr_next_run_at r = nextRunISO \<and> enr_campaign_id r = campaignId
                \<and> enr_contact_id r \<in> set cids \<and> enr_last_sent_at r = None))"
proof (induction cids arbitrary: k tbl n)
  case Nil
  then show ?case by simp
next
  case (Cons cid cids)
  let ?row = "\<lparr>enr_id = cuid k, enr_campaign_id = campaignId, enr_contact_id = cid,
           enr_status = Active, enr_next_step_order = 1, enr_next_run_at = nextRunISO,
           enr_last_sent_at = None, enr_variant_json = None,
           enr_data_json = map_of varsByContact cid,
           enr_created_at = now, enr_updated_at = now\<rparr>"
  let ?t1 = "insert_or_ignore ?row tbl"
  from Cons.prems have run: "enroll_loop cuid campaignId varsByContact nextRunISO now (Suc k) cids
                           (?t1, Suc n) = (tbl', n')"
    by simp
  from Cons.IH [OF run] obtain new where
    n': "n' = Suc n + length cids" and t': "tbl' = ?t1 @ new" and len: "length new \<le> length cids"
    and strict: "(\<exists>c \<in> set cids. enrolled ?t1 campaignId c) \<longrightarrow> length new < length cids"
    and rows: "\<forall>r \<in> set new. enr_status r = Active \<and> enr_next_step_order r = 1
                \<and> enr_next_run_at r = nextRunISO \<and> enr_campaign_id r = campaignId
                \<and> enr_contact_id r \<in> set cids \<and> enr_last_sent_at r = None"
    by blast
  have n'': "n' = n + length (cid # cids)" using n' by simp
  from insert_or_ignore_cases [of ?row tbl] show ?case
  proof
    assume same: "?t1 = tbl"
    have "tbl' = tbl @ new" using t' same by simp
    moreover have "length new < length (cid # cids)" using len by simp
    moreover have "length new \<le> length (cid # cids)" using len by simp
    moreover have "\<forall>r \<in> set new. enr_status r = Active \<and> enr_next_step_order r = 1
                \<and> enr_next_run_at r = nextRunISO \<and> enr_campaign_id r = campaignId
                \<and> enr_contact_id r \<in> set (cid # cids) \<and> enr_last_sent_at r = None"
      using rows by auto
    ultimately show ?thesis using n'' by (intro conjI exI [where x = new] impI)
  next
    assume app: "?t1 = tbl @ [?row]"
    have ne: "\<not> enrolled tbl campaignId cid"
    proof
      assume "enrolled tbl campaignId cid"
      then have "?t1 = tbl" using insert_or_ignore_enrolled [of tbl ?row] by simp
      with app show False by simp
    qed
    have t'': "tbl' = tbl @ (?row # new)" using t' app by simp
    have "length (?row # new) < length (cid # cids)"
      if "\<exists>c \<in> set (cid # cids). enrolled tbl campaignId c"
    proof -
      from that ne obtain c where "c \<in> set cids" "enrolled tbl campaignId c" by auto
      then have "\<exists>c \<in> set cids. enrolled ?t1 campaignId c"
        unfolding app using enrolled_mono by blast
      with strict show ?thesis by simp
    qed
    moreover have "length (?row # new) \<le> length (cid # cids)" using len by simp
    moreover have "\<forall>r \<in> set (?row # new). enr_status r = Active \<and> enr_next_step_order r = 1
                \<and> enr_next_run_at r = nextRunISO \<and> enr_campaign_id r = campaignId
                \<and> enr_contact_id r \<in> set (cid # cids) \<and> enr_last_sent_at r = None"
      using rows by auto
    ultimately show ?thesis using n'' t''
      by (intro conjI exI [where x = "?row # new"] impI)
  qed
qed

lemma ensureMarketingSchema_tables:
  "marketing_enrollments (ensureMarketingSchema d) = marketing_enrollments d"
  "marketing_campaign_steps (ensureMarketingSchema d) = marketing_campaign_steps d"
  "contacts (ensureMarketingSchema d) = contacts d"
  "marketing_sends (ensureMarketingSchema d) = marketing_sends d"
  "marketing_suppressions (ensureMarketingSchema d) = marketing_suppressions d"
  by (simp_all add: ensureMarketingSchema_def Let_def)

text \<open>
  What the code seeds: every row that \<open>enrollContacts\<close> adds is active, points at step
  order 1, and is due at the start time plus the smallest \<open>delay_minutes\<close> among the
  steps of the campaign.
\<close>

lemma enrollContacts_seed:
  assumes "enrollContacts cuid now campaignId contactIds startAtISO varsByContact d = (d', Inr r)"
  shows "\<exists>T new. (case startAtISO of None \<Rightarrow> Date now | Some dt \<Rightarrow> dt) = Date T
           \<and> next_run_at r = T + min_delay (marketing_campaign_steps d) campaignId * minute_ms
           \<and> marketing_enrollments d' = marketing_enrollments d @ new
           \<and> (\<forall>x \<in> set new. enr_status x = Active \<and> enr_next_step_order x = 1
                 \<and> enr_next_run_at x = next_run_at r)"
proof -
  let ?d = "ensureMarketingSchema d"
  let ?start = "case startAtISO of None \<Rightarrow> Date now | Some dt \<Rightarrow> dt"
  from assms obtain T where T: "?start = Date T"
    by (cases ?start) (auto simp: enrollContacts_def Let_def add_minutes_def)
  define nr where "nr = T + min_delay (marketing_campaign_steps d) campaignId * minute_ms"
  have nx: "add_minutes ?start (min_delay (marketing_campaign_steps ?d) campaignId) = Date nr"
    using assms T
    by (auto simp: enrollContacts_def Let_def add_minutes_def TimeClip_def nr_def
          ensureMarketingSchema_tables split: if_splits)
  obtain tbl' n' where loop: "enroll_loop cuid campaignId varsByContact nr now 0 contactIds
                               (marketing_enrollments ?d, 0) = (tbl', n')"
    by (cases "enroll_loop cuid campaignId varsByContact nr now 0 contactIds
                 (marketing_enrollments ?d, 0)") auto
  have res: "enrollContacts cuid now campaignId contactIds startAtISO varsByContact d
                   = (?d\<lparr>marketing_enrollments := tbl'\<rparr>, Inr \<lparr>created = n', next_run_at = nr\<rparr>)"
    using nx loop by (simp add: enrollContacts_def Let_def)
  with assms have d': "d' = ?d\<lparr>marketing_enrollments := tbl'\<rparr>"
    and r: "r = \<lparr>created = n', next_run_at = nr\<rparr>" by simp_all
  from enroll_loop_result [OF loop] obtain new where
    "tbl' = marketing_enrollments d @ new"
    "\<forall>x \<in> set new. enr_status x = Active \<and> enr_next_step_order x = 1 \<and> enr_next_run_at x = nr"
    by (auto simp: ensureMarketingSchema_tables)
  with T d' r show ?thesis by (auto simp: nr_def)
qed

text \<open>
  C2, at the failing input: the first step of the campaign waits 60 minutes and the
  second waits 0 minutes; a contact enrolled at time 0 is due at time 0, not after 60
  minutes.
\<close>

theorem enrollContacts_first_delay_example:
  "map_option step_delay_minutes (stepQuery ex_store_delays ''welcome'' 1) = Some (Some 60)
   \<and> map (\<lambda>r. (enr_contact_id r, enr_status r, enr_next_step_order r, enr_next_run_at r))
        (marketing_enrollments
           (fst (enrollContacts ex_cuid 0 ''welcome'' [''c1''] None [] ex_store_delays)))
       = [(''c1'', Active, 1, 0)]
   \<and> snd (enrollContacts ex_cuid 0 ''welcome'' [''c1''] None [] ex_store_delays)
       = Inr \<lparr>created = 1, next_run_at = 0\<rparr>
   \<and> (0::int) + 60 * minute_ms \<noteq> 0"
  by code_simp

text \<open>
  The two ways in which a call ends: it throws (line 272) when the start date moved by
  the delay is not a valid date, having written no enrollment, and otherwise it runs the
  loop and returns.
\<close>

lemma enrollContacts_cases:
  "(add_minutes (case startAtISO of None \<Rightarrow> Date now | Some dt \<Rightarrow> dt)
      (min_delay (marketing_campaign_steps d) campaignId) = InvalidDate
    \<and> enrollContacts cuid now campaignId contactIds startAtISO varsByContact d
        = (ensureMarketingSchema d, Inl RangeError))
   \<or> (\<exists>nr tbl' n'.
        add_minutes (case startAtISO of None \<Rightarrow> Date now | Some dt \<Rightarrow> dt)
          (min_delay (marketing_campaign_steps d) campaignId) = Date nr
        \<and> enroll_loop cuid campaignId varsByContact nr now 0 contactIds (marketing_enrollments d, 0)
            = (tbl', n')
        \<and> enrollContacts cuid now campaignId contactIds startAtISO varsByContact d
            = ((ensureMarketingSchema d)\<lparr>marketing_enrollments := tbl'\<rparr>,
               Inr \<lparr>created = n', next_run_at = nr\<rparr>))"
proof (cases "add_minutes (case startAtISO of None \<Rightarrow> Date now | Some dt \<Rightarrow> dt)
                (min_delay (marketing_campaign_steps d) campaignId)")
  case InvalidDate
  then show ?thesis
    by (simp add: enrollContacts_def Let_def ensureMarketingSchema_tables)
next
  case (Date nr)
  obtain tbl' n' where loop: "enroll_loop cuid campaignId varsByContact nr now 0 contactIds
                               (marketing_enrollments d, 0) = (tbl', n')"
    by (cases "enroll_loop cuid campaignId varsByContact nr now 0 contactIds
                 (marketing_enrollments d, 0)") auto
  with Date show ?thesis
    by (simp add: enrollContacts_def Let_def ensureMarketingSchema_tables)
qed

text \<open>
  C10. Every call of \<open>enrollContacts\<close> that returns reports as \<open>created\<close> the number of
  contact ids passed in. The rows already in the table stay as they are and in front;
  the rows added are at most \<open>created\<close>, and fewer when one of the contacts was already
  enrolled in the campaign. The call returns exactly when the start date moved by the
  delay is a valid date; otherwise it throws the \<open>RangeError\<close> of \<open>toISOString\<close> and the
  enrollments are as they were.
\<close>

theorem enrollContacts_created_counts_ids:
  "(case snd (enrollContacts cuid now campaignId contactIds startAtISO varsByContact d) of
      Inr r \<Rightarrow>
        created r = length contactIds
        \<and> (\<exists>new. marketing_enrollments
                    (fst (enrollContacts cuid now campaignId contactIds startAtISO varsByContact d))
                    = marketing_enrollments d @ new
                  \<and> length new \<le> created r
                  \<and> ((\<exists>cid \<in> set contactIds. enrolled (marketing_enrollments d) campaignId cid)
                       \<longrightarrow> length new < created r))
        \<and> add_minutes (case startAtISO of None \<Rightarrow> Date now | Some dt \<Rightarrow> dt)
              (min_delay (marketing_campaign_steps d) campaignId) \<noteq> InvalidDate
    | Inl err \<Rightarrow>
        err = RangeError
        \<and> add_minutes (case startAtISO of None \<Rightarrow> Date now | Some dt \<Rightarrow> dt)
              (min_delay (marketing_campaign_steps d) campaignId) = InvalidDate
        \<and> marketing_enrollments
            (fst (enrollContacts cuid now campaignId contactIds startAtISO varsByContact d))
            = marketing_enrollments d)"
proof -
  from enrollContacts_cases
         [where startAtISO = startAtISO and now = now and d = d and campaignId = campaignId
            and cuid = cuid and contactIds = contactIds and varsByContact = varsByContact]
  show ?thesis
  proof
    assume "add_minutes (case startAtISO of None \<Rightarrow> Date now | Some dt \<Rightarrow> dt)
              (min_delay (marketing_campaign_steps d) campaignId) = InvalidDate
            \<and> enrollContacts cuid now campaignId contactIds startAtISO varsByContact d
                = (ensureMarketingSchema d, Inl RangeError)"
    then show ?thesis by (simp add: ensureMarketingSchema_tables)
  next
    assume "\<exists>nr tbl' n'.
        add_minutes (case startAtISO of None \<Rightarrow> Date now | Some dt \<Rightarrow> dt)
          (min_delay (marketing_campaign_steps d) campaignId) = Date nr
        \<and> enroll_loop cuid campaignId varsByContact nr now 0 contactIds (marketing_enrollments d, 0)
            = (tbl', n')
        \<and> enrollContacts cuid now campaignId contactIds startAtISO varsByContact d
            = ((ensureMarketingSchema d)\<lparr>marketing_enrollments := tbl'\<rparr>,
               Inr \<lparr>created = n', next_run_at = nr\<rparr>)"
    then obtain nr tbl' n' where
      nx: "add_minutes (case startAtISO of None \<Rightarrow> Date now | Some dt \<Rightarrow> dt)
             (min_delay (marketing_campaign_steps d) campaignId) = Date nr"
      and loop: "enroll_loop cuid campaignId varsByContact nr now 0 contactIds
                   (marketing_enrollments d, 0) = (tbl', n')"
      and res: "enrollContacts cuid now campaignId contactIds startAtISO varsByContact d
                  = ((ensureMarketingSchema d)\<lparr>marketing_enrollments := tbl'\<rparr>,
                     Inr \<lparr>created = n', next_run_at = nr\<rparr>)"
      by (elim exE conjE)
    from enroll_loop_result [OF loop] obtain new where
      "n' = length contactIds" "tbl' = marketing_enrollments d @ new"
      "length new \<le> length contactIds"
      "(\<exists>cid \<in> set contactIds. enrolled (marketing_enrollments d) campaignId cid)
         \<longrightarrow> length new < length contactIds"
      by auto
    with nx res show ?thesis by simp
  qed
qed

theorem enrollContacts_created_counts_ids_witness:
  "enrolled (marketing_enrollments ex_store_enrolled) ''welcome'' ''c1''
   \<and> snd (enrollContacts ex_cuid 1000 ''welcome'' [''c1'', ''c2''] None [] ex_store_enrolled)
       = Inr \<lparr>created = 2, next_run_at = 1000\<rparr>
   \<and> map enr_id (marketing_enrollments
        (fst (enrollContacts ex_cuid 1000 ''welcome'' [''c1'', ''c2''] None [] ex_store_enrolled)))
       = [''e1'', ''id_x'']
   \<and> (\<exists>new. marketing_enrollments
               (fst (enrollContacts ex_cuid 1000 ''welcome'' [''c1'', ''c2''] None [] ex_store_enrolled))
               = marketing_enrollments ex_store_enrolled @ new
             \<and> length new < 2)
   \<and> snd (enrollContacts ex_cuid 1000 ''welcome'' [''c1'', ''c2''] (Some InvalidDate) []
            ex_store_enrolled) = Inl RangeError
   \<and> snd (enrollContacts ex_cuid 1000 ''welcome'' [''c1''] (Some (Date max_time)) []
            ex_store_wait) = Inl RangeError"
proof -
  have en: "enrolled (marketing_enrollments ex_store_enrolled) ''welcome'' ''c1''"
    by code_simp
  have r: "snd (enrollContacts ex_cuid 1000 ''welcome'' [''c1'', ''c2''] None [] ex_store_enrolled)
       = Inr \<lparr>created = 2, next_run_at = 1000\<rparr>"
    by code_simp
  have ids: "map enr_id (marketing_enrollments
        (fst (enrollContacts ex_cuid 1000 ''welcome'' [''c1'', ''c2''] None [] ex_store_enrolled)))
       = [''e1'', ''id_x'']"
    by code_simp
  have thr: "snd (enrollContacts ex_cuid 1000 ''welcome'' [''c1'', ''c2''] (Some InvalidDate) []
                    ex_store_enrolled) = Inl RangeError"
    by code_simp
  have far: "snd (enrollContacts ex_cuid 1000 ''welcome'' [''c1''] (Some (Date max_time)) []
                    ex_store_wait) = Inl RangeError"
    by code_simp
  from enrollContacts_created_counts_ids
         [where cuid = ex_cuid and now = 1000 and campaignId = "''welcome''"
            and contactIds = "[''c1'', ''c2'']" and startAtISO = None and varsByContact = "[]"
            and d = ex_store_enrolled] en
  have "\<exists>new. marketing_enrollments
               (fst (enrollContacts ex_cuid 1000 ''welcome'' [''c1'', ''c2''] None [] ex_store_enrolled))
               = marketing_enrollments ex_store_enrolled @ new
             \<and> length new < 2"
    unfolding r by auto
  with en r ids thr far show ?thesis by blast
qed

section \<open>Properties of the scheduler\<close>

lemma count_proj [simp]:
  "ts_store (count f s) = ts_store s"
  "ts_limiter (count f s) = ts_limiter s"
  "ts_counts (count f s) = f (ts_counts s)"
  by (simp_all add: count_def)

lemma updEnroll_tables [simp]:
  "marketing_config (updEnroll n t l u x d) = marketing_config d"
  "contacts (updEnroll n t l u x d) = contacts d"
  "marketing_campaign_steps (updEnroll n t l u x d) = marketing_campaign_steps d"
  "marketing_sends (updEnroll n t l u x d) = marketing_sends d"
  "marketing_suppressions (updEnroll n t l u x d) = marketing_suppressions d"
  by (simp_all add: updEnroll_def)

lemma markDone_tables [simp]:
  "marketing_config (markDone u x d) = marketing_config d"
  "contacts (markDone u x d) = contacts d"
  "marketing_campaign_steps (markDone u x d) = marketing_campaign_steps d"
  "marketing_sends (markDone u x d) = marketing_sends d"
  "marketing_suppressions (markDone u x d) = marketing_suppressions d"
  by (simp_all add: markDone_def)

lemma stepQuery_cong:
  "marketing_campaign_steps d' = marketing_campaign_steps d \<Longrightarrow> stepQuery d' = stepQuery d"
  by (intro ext) (simp add: stepQuery_def)

lemma suppressed_get_cong:
  "marketing_suppressions d' = marketing_suppressions d \<Longrightarrow> suppressed_get d' = suppressed_get d"
  by (intro ext) (simp add: suppressed_get_def)

lemma find_enr_cong:
  "marketing_enrollments d' = marketing_enrollments d \<Longrightarrow> find_enr d' = find_enr d"
  by (intro ext) (simp add: find_enr_def)

lemma find_map_other:
  "find (\<lambda>r. enr_id r = y) (map (\<lambda>r. if enr_id r = x then f r else r) rs)
     = (if y = x then map_option f (find (\<lambda>r. enr_id r = y) rs) else find (\<lambda>r. enr_id r = y) rs)"
  if "\<And>r. enr_id (f r) = enr_id r"
  using that by (induction rs) auto

lemma find_enr_updEnroll:
  "find_enr (updEnroll n t l u x d) y
     = (if y = x
        then map_option (\<lambda>r. r\<lparr>enr_next_step_order := n, enr_next_run_at := t,
                                 enr_last_sent_at := l, enr_updated_at := u\<rparr>) (find_enr d y)
        else find_enr d y)"
  unfolding find_enr_def updEnroll_def
  by (simp add: find_map_other
      [where f = "\<lambda>r. r\<lparr>enr_next_step_order := n, enr_next_run_at := t,
                          enr_last_sent_at := l, enr_updated_at := u\<rparr>"])

lemma find_enr_markDone:
  "find_enr (markDone u x d) y
     = (if y = x
        then map_option (\<lambda>r. r\<lparr>enr_status := Completed, enr_updated_at := u\<rparr>) (find_enr d y)
        else find_enr d y)"
  unfolding find_enr_def markDone_def
  by (simp add: find_map_other [where f = "\<lambda>r. r\<lparr>enr_status := Completed, enr_updated_at := u\<rparr>"])

lemma enr_ids_updEnroll [simp]:
  "map enr_id (marketing_enrollments (updEnroll n t l u x d)) = map enr_id (marketing_enrollments d)"
  by (simp add: updEnroll_def comp_def)

lemma enr_ids_markDone [simp]:
  "map enr_id (marketing_enrollments (markDone u x d)) = map enr_id (marketing_enrollments d)"
  by (simp add: markDone_def comp_def)

subsection \<open>advance\<close>

lemma advance_tables [simp]:
  "marketing_config (ts_store (advance w i now l e s)) = marketing_config (ts_store s)"
  "contacts (ts_store (advance w i now l e s)) = contacts (ts_store s)"
  "marketing_campaign_steps (ts_store (advance w i now l e s)) = marketing_campaign_steps (ts_store s)"
  "marketing_sends (ts_store (advance w i now l e s)) = marketing_sends (ts_store s)"
  "marketing_suppressions (ts_store (advance w i now l e s)) = marketing_suppressions (ts_store s)"
  "ts_limiter (advance w i now l e s) = ts_limiter s"
  "map enr_id (marketing_enrollments (ts_store (advance w i now l e s)))
     = map enr_id (marketing_enrollments (ts_store s))"
  by (simp_all add: advance_def Let_def split: option.splits)

lemma advance_counts:
  "ts_counts (advance w i now l e s)
     = (case stepQuery (ts_store s) (enr_campaign_id e) (enr_next_step_order e + 1) of
          None \<Rightarrow> inc_completed (ts_counts s) | Some st \<Rightarrow> ts_counts s)"
  by (simp add: advance_def Let_def split: option.splits)

lemma find_enr_advance:
  "find_enr (ts_store (advance w i now l e s)) y
     = (if y = enr_id e
        then map_option
               (\<lambda>r. case stepQuery (ts_store s) (enr_campaign_id e) (enr_next_step_order e + 1) of
                       None \<Rightarrow> r\<lparr>enr_status := Completed, enr_updated_at := now\<rparr>
                     | Some st \<Rightarrow>
                         r\<lparr>enr_next_step_order := enr_next_step_order e + 1,
                           enr_next_run_at := w_clock w i + delay_of st * minute_ms,
                           enr_last_sent_at := l, enr_updated_at := now\<rparr>)
               (find_enr (ts_store s) y)
        else find_enr (ts_store s) y)"
  by (simp add: advance_def Let_def find_enr_updEnroll find_enr_markDone split: option.splits)

subsection \<open>The branches of the loop body\<close>

lemma send_row_proj [simp]:
  "send_id (send_row w now i e c cont v result) = w_cuid w i"
  "send_contact_id (send_row w now i e c cont v result) = enr_contact_id e"
  "send_campaign_id (send_row w now i e c cont v result) = enr_campaign_id e"
  "send_step_order (send_row w now i e c cont v result) = enr_next_step_order e"
  "send_status (send_row w now i e c cont v result) = result_status result"
  by (simp_all add: send_row_def)


lemma body_nostep:
  "\<not> suppressed_get (ts_store s) (enr_contact_id e) \<Longrightarrow>
   stepQuery (ts_store s) (enr_campaign_id e) (enr_next_step_order e) = None \<Longrightarrow>
   tick_body w ok qs now i (e, c) s
     = Continue (count inc_completed
                   ((count inc_processed s)\<lparr>ts_store := markDone now (enr_id e) (ts_store s)\<rparr>))"
  by (simp add: tick_body_def)


lemma body_limited:
  "\<not> suppressed_get (ts_store s) (enr_contact_id e) \<Longrightarrow>
   stepQuery (ts_store s) (enr_campaign_id e) (enr_next_step_order e) = Some st \<Longrightarrow>
   ok \<Longrightarrow> \<not> fst (limiter_take 1 (marketing_config (ts_store s), ts_limiter s)) \<Longrightarrow>
   tick_body w ok qs now i (e, c) s = Break (count inc_processed s)"
  by (cases "limiter_take 1 (marketing_config (ts_store s), ts_limiter s)")
     (auto simp: tick_body_def)

lemma body_rejected:
  "\<not> suppressed_get (ts_store s) (enr_contact_id e) \<Longrightarrow>
   stepQuery (ts_store s) (enr_campaign_id e) (enr_next_step_order e) = Some st \<Longrightarrow>
   ok \<Longrightarrow> limiter_take 1 (marketing_config (ts_store s), ts_limiter s) = (True, cfg, lim) \<Longrightarrow>
   sendEmailAdapter w i
     (compose_msg w c (buildContent st (chooseVariant (w_random w i) st) (compose_vars w e c)))
     = Rejected \<Longrightarrow>
   tick_body w ok qs now i (e, c) s
     = Throw TransportError
         ((count inc_processed s)\<lparr>ts_store := (ts_store s)\<lparr>marketing_config := cfg\<rparr>, ts_limiter := lim\<rparr>)"
  by (simp add: tick_body_def Let_def)


subsection \<open>What every iteration leaves alone\<close>

lemma body_static:
  "marketing_campaign_steps (ts_store (flow_state (tick_body w ok qs now i ec s)))
     = marketing_campaign_steps (ts_store s)
   \<and> marketing_suppressions (ts_store (flow_state (tick_body w ok qs now i ec s)))
     = marketing_suppressions (ts_store s)
   \<and> contacts (ts_store (flow_state (tick_body w ok qs now i ec s))) = contacts (ts_store s)
   \<and> map enr_id (marketing_enrollments (ts_store (flow_state (tick_body w ok qs now i ec s))))
     = map enr_id (marketing_enrollments (ts_store s))"
  by (auto simp: tick_body_def Let_def insSend_def
      split: prod.splits option.splits if_splits jsnum.splits jsdate.splits bool.splits
        send_outcome.splits)

lemma body_enr_other:
  "y \<noteq> enr_id e \<Longrightarrow>
   find_enr (ts_store (flow_state (tick_body w ok qs now i (e, c) s))) y = find_enr (ts_store s) y"
  by (auto simp: tick_body_def Let_def insSend_def find_enr_advance find_enr_updEnroll
        find_enr_markDone find_enr_def [of "_\<lparr>marketing_config := _\<rparr>"]
        find_enr_def [of "_\<lparr>marketing_sends := _\<rparr>"] find_enr_def [of "ts_store s"]
      split: prod.splits option.splits if_splits jsnum.splits jsdate.splits bool.splits
        send_outcome.splits)



subsection \<open>The loop\<close>

lemma loop_append:
  "tick_loop w ok qs now i (xs @ ys) s
     = (case tick_loop w ok qs now i xs s of
          Continue s' \<Rightarrow> tick_loop w ok qs now (i + length xs) ys s'
        | Break s' \<Rightarrow> Break s'
        | Throw err s' \<Rightarrow> Throw err s')"
  by (induction xs arbitrary: i s) (auto split: flow.splits)

lemma loop_static:
  "marketing_campaign_steps (ts_store (flow_state (tick_loop w ok qs now i due s)))
     = marketing_campaign_steps (ts_store s)
   \<and> marketing_suppressions (ts_store (flow_state (tick_loop w ok qs now i due s)))
     = marketing_suppressions (ts_store s)
   \<and> contacts (ts_store (flow_state (tick_loop w ok qs now i due s))) = contacts (ts_store s)
   \<and> map enr_id (marketing_enrollments (ts_store (flow_state (tick_loop w ok qs now i due s))))
     = map enr_id (marketing_enrollments (ts_store s))"
proof (induction due arbitrary: i s)
  case Nil
  show ?case by simp
next
  case (Cons ec due)
  show ?case
  proof (cases "tick_body w ok qs now i ec s")
    case (Continue s')
    with body_static [of w ok qs now i ec s] Cons [of "Suc i" s'] show ?thesis by simp
  next
    case (Break s')
    with body_static [of w ok qs now i ec s] show ?thesis by simp
  next
    case (Throw err s')
    with body_static [of w ok qs now i ec s] show ?thesis by simp
  qed
qed

lemma loop_enr_other:
  "y \<notin> set (map (\<lambda>ec. enr_id (fst ec)) due) \<Longrightarrow>
   find_enr (ts_store (flow_state (tick_loop w ok qs now i due s))) y = find_enr (ts_store s) y"
proof (induction due arbitrary: i s)
  case Nil
  show ?case by simp
next
  case (Cons ec due)
  obtain e c where ec: "ec = (e, c)" by (cases ec)
  from Cons.prems ec have ne: "y \<noteq> enr_id e" and rest: "y \<notin> set (map (\<lambda>ec. enr_id (fst ec)) due)"
    by auto
  show ?case
  proof (cases "tick_body w ok qs now i ec s")
    case (Continue s')
    with body_enr_other [OF ne, of w ok qs now i c s] ec Cons.IH [OF rest, of "Suc i" s']
    show ?thesis by simp
  next
    case (Break s')
    with body_enr_other [OF ne, of w ok qs now i c s] ec show ?thesis by simp
  next
    case (Throw err s')
    with body_enr_other [OF ne, of w ok qs now i c s] ec show ?thesis by simp
  qed
qed


subsection \<open>The batch\<close>

lemma map_filter_fst:
  "map fst (List.map_filter (\<lambda>e. if P e then map_option (Pair e) (g e) else None) xs)
     = filter (\<lambda>e. P e \<and> g e \<noteq> None) xs"
  by (induction xs) (auto simp: List.map_filter_simps split: option.splits)

lemma select_due_fst:
  "set (map fst (select_due d now batch))
     \<subseteq> {e \<in> set (marketing_enrollments d). enr_status e = Active \<and> enr_next_run_at e \<le> now}"
proof -
  let ?f = "\<lambda>e. if enr_status e = Active \<and> enr_next_run_at e \<le> now
                 then map_option (Pair e) (find (\<lambda>c. contact_id c = enr_contact_id e) (contacts d))
                 else None"
  let ?xs = "List.map_filter ?f (marketing_enrollments d)"
  have "set (sql_limit batch (sort_key (\<lambda>ec. enr_next_run_at (fst ec)) ?xs)) \<subseteq> set ?xs"
    by (auto simp: sql_limit_def dest: in_set_takeD)
  then have "set (map fst (select_due d now batch)) \<subseteq> set (map fst ?xs)"
    unfolding select_due_def by auto
  also have "map fst ?xs = filter (\<lambda>e. (enr_status e = Active \<and> enr_next_run_at e \<le> now)
                 \<and> find (\<lambda>c. contact_id c = enr_contact_id e) (contacts d) \<noteq> None) (marketing_enrollments d)"
    by (rule map_filter_fst)
  finally show ?thesis by auto
qed

lemma select_due_distinct:
  assumes "distinct (map enr_id (marketing_enrollments d))"
  shows "distinct (map (\<lambda>ec. enr_id (fst ec)) (select_due d now batch))"
proof -
  let ?f = "\<lambda>e. if enr_status e = Active \<and> enr_next_run_at e \<le> now
                 then map_option (Pair e) (find (\<lambda>c. contact_id c = enr_contact_id e) (contacts d))
                 else None"
  let ?xs = "List.map_filter ?f (marketing_enrollments d)"
  let ?g = "\<lambda>ec. enr_id (fst ec)"
  have "map ?g ?xs = map enr_id (map fst ?xs)" by (simp add: comp_def)
  also have "\<dots> = map enr_id (filter (\<lambda>e. (enr_status e = Active \<and> enr_next_run_at e \<le> now)
                 \<and> find (\<lambda>c. contact_id c = enr_contact_id e) (contacts d) \<noteq> None) (marketing_enrollments d))"
    by (simp only: map_filter_fst)
  finally have "distinct (map ?g ?xs)"
    using assms by (simp add: distinct_map_filter)
  then have "distinct (map ?g (sort_key (\<lambda>ec. enr_next_run_at (fst ec)) ?xs))"
    by (simp add: distinct_map)
  then show ?thesis
    unfolding select_due_def sql_limit_def
    by (auto simp: take_map [symmetric] simp del: take_map)
qed

lemma select_due_length: "0 \<le> batch \<Longrightarrow> int (length (select_due d now batch)) \<le> batch"
  by (simp add: select_due_def sql_limit_def)

lemma find_id_mem:
  "distinct (map enr_id rs) \<Longrightarrow> e \<in> set rs \<Longrightarrow> find (\<lambda>r. enr_id r = enr_id e) rs = Some e"
  by (induction rs) force+

lemma find_enr_mem:
  "distinct (map enr_id (marketing_enrollments d)) \<Longrightarrow> e \<in> set (marketing_enrollments d) \<Longrightarrow>
   find_enr d (enr_id e) = Some e"
  unfolding find_enr_def by (rule find_id_mem)

subsection \<open>The tick as a whole\<close>

lemma tick_init_tables [simp]:
  "contacts (ts_store (tick_init w d)) = contacts d"
  "marketing_campaign_steps (ts_store (tick_init w d)) = marketing_campaign_steps d"
  "marketing_enrollments (ts_store (tick_init w d)) = marketing_enrollments d"
  "marketing_sends (ts_store (tick_init w d)) = marketing_sends d"
  "marketing_suppressions (ts_store (tick_init w d)) = marketing_suppressions d"
  "ts_counts (tick_init w d)
     = \<lparr>processed = 0, sent = 0, queued = 0, suppressed = 0, completed = 0, skipped_quiet = 0\<rparr>"
  by (simp_all add: tick_init_def Let_def ensureMarketingSchema_def split: prod.splits)

lemma marketingTick_flow:
  "fst (marketingTick w batch d)
     = ts_store (flow_state (tick_loop w (tick_isOkWindow w d) (tick_quietStart d) (w_now w) 0
                               (tick_due w batch d) (tick_init w d)))"
  by (simp add: marketingTick_def split: flow.splits)

text \<open>
  When the tick reaches the row \<open>(e, c)\<close> of index \<open>i\<close> in state \<open>s\<close>: the step and
  suppression tables are those of the start, the row of \<open>e\<close> is still the selected one,
  the tick continues from the body run on that row, and the later rows leave the row of
  \<open>e\<close> as the body left it.
\<close>

lemma tick_row:
  assumes dist: "distinct (map enr_id (marketing_enrollments d))"
    and reach: "tick_reaches w batch d i s"
    and row: "tick_due w batch d ! i = (e, c)"
  shows "stepQuery (ts_store s) = stepQuery d"
    and "suppressed_get (ts_store s) = suppressed_get d"
    and "find_enr (ts_store s) (enr_id e) = Some e"
    and "e \<in> set (marketing_enrollments d)"
    and "tick_loop w (tick_isOkWindow w d) (tick_quietStart d) (w_now w) 0
           (tick_due w batch d) (tick_init w d)
         = (case tick_step w d i (e, c) s of
              Continue s' \<Rightarrow> tick_loop w (tick_isOkWindow w d) (tick_quietStart d) (w_now w) (Suc i)
                               (drop (Suc i) (tick_due w batch d)) s'
            | Break s' \<Rightarrow> Break s'
            | Throw err s' \<Rightarrow> Throw err s')"
    and "find_enr (fst (marketingTick w batch d)) (enr_id e)
         = find_enr (ts_store (flow_state (tick_step w d i (e, c) s))) (enr_id e)"
proof -
  let ?due = "tick_due w batch d"
  let ?ok = "tick_isOkWindow w d" and ?qs = "tick_quietStart d" and ?now = "w_now w"
  let ?ids = "map (\<lambda>ec. enr_id (fst ec))"
  from reach have il: "i < length ?due"
    and pre: "tick_loop w ?ok ?qs ?now 0 (take i ?due) (tick_init w d) = Continue s"
    by (simp_all add: tick_reaches_def)
  have split: "?due = take i ?due @ (e, c) # drop (Suc i) ?due"
    using id_take_nth_drop [OF il] by (simp only: row)
  have dd: "distinct (?ids ?due)"
    unfolding tick_due_def using dist by (intro select_due_distinct) simp
  then have "distinct (?ids (take i ?due) @ enr_id e # ?ids (drop (Suc i) ?due))"
    by (subst (asm) split) simp
  then have npre: "enr_id e \<notin> set (?ids (take i ?due))"
    and npost: "enr_id e \<notin> set (?ids (drop (Suc i) ?due))"
    by auto
  have st: "s = flow_state (tick_loop w ?ok ?qs ?now 0 (take i ?due) (tick_init w d))"
    using pre by simp
  from loop_static [of w ?ok ?qs ?now 0 "take i ?due" "tick_init w d"]
  have steps: "marketing_campaign_steps (ts_store s) = marketing_campaign_steps d"
    and supp: "marketing_suppressions (ts_store s) = marketing_suppressions d"
    unfolding st [symmetric] by simp_all
  show "stepQuery (ts_store s) = stepQuery d" by (rule stepQuery_cong [OF steps])
  show "suppressed_get (ts_store s) = suppressed_get d" by (rule suppressed_get_cong [OF supp])
  have "(e, c) \<in> set ?due" using il row by (metis nth_mem)
  then have "e \<in> set (map fst ?due)" by force
  with select_due_fst [of "ts_store (tick_init w d)" ?now batch]
  show mem: "e \<in> set (marketing_enrollments d)" by (auto simp: tick_due_def)
  have "find_enr (ts_store s) (enr_id e) = find_enr (ts_store (tick_init w d)) (enr_id e)"
    unfolding st by (rule loop_enr_other [OF npre])
  also have "\<dots> = find_enr d (enr_id e)" by (simp add: find_enr_def)
  also have "\<dots> = Some e" by (rule find_enr_mem [OF dist mem])
  finally show "find_enr (ts_store s) (enr_id e) = Some e" .
  have "tick_loop w ?ok ?qs ?now 0 ?due (tick_init w d)
          = tick_loop w ?ok ?qs ?now 0 (take i ?due @ (e, c) # drop (Suc i) ?due) (tick_init w d)"
    using split by simp
  also have "\<dots> = tick_loop w ?ok ?qs ?now i ((e, c) # drop (Suc i) ?due) s"
    using pre il by (simp add: loop_append min_def)
  finally show loop: "tick_loop w ?ok ?qs ?now 0 ?due (tick_init w d)
         = (case tick_step w d i (e, c) s of
              Continue s' \<Rightarrow> tick_loop w ?ok ?qs ?now (Suc i) (drop (Suc i) ?due) s'
            | Break s' \<Rightarrow> Break s'
            | Throw err s' \<Rightarrow> Throw err s')"
    by (simp add: tick_step_def)
  show "find_enr (fst (marketingTick w batch d)) (enr_id e)
         = find_enr (ts_store (flow_state (tick_step w d i (e, c) s))) (enr_id e)"
    unfolding marketingTick_flow loop
    using loop_enr_other [OF npost, of w ?ok ?qs ?now "Suc i"]
    by (cases "tick_step w d i (e, c) s") simp_all
qed

subsection \<open>Suppressed contacts\<close>






subsection \<open>Quiet hours\<close>







subsection \<open>The rate-limit gate\<close>

lemma distinct_nth_notin_take:
  assumes "distinct (map g xs)" "i \<le> j" "j < length xs"
  shows "g (xs ! j) \<notin> set (map g (take i xs))"
proof
  assume "g (xs ! j) \<in> set (map g (take i xs))"
  then obtain k where k: "k < i" "k < length xs" "g (xs ! k) = g (xs ! j)"
    by (auto simp: in_set_conv_nth)
  then have "map g xs ! k = map g xs ! j" using assms(3) by simp
  moreover have "k < length (map g xs)" "j < length (map g xs)" using k assms(3) by simp_all
  ultimately have "k = j"
    using nth_eq_iff_index_eq [OF assms(1)] by blast
  with k assms(2) show False by simp
qed

text \<open>The rows that the loop has not reached are as they were selected.\<close>

lemma tick_later_rows:
  assumes dist: "distinct (map enr_id (marketing_enrollments d))"
    and reach: "tick_reaches w batch d i s"
    and ij: "i \<le> j" and jl: "j < length (tick_due w batch d)"
  shows "find_enr (ts_store s) (enr_id (fst (tick_due w batch d ! j))) = Some (fst (tick_due w batch d ! j))"
proof -
  let ?due = "tick_due w batch d"
  let ?g = "\<lambda>ec. enr_id (fst ec)"
  let ?e = "fst (?due ! j)"
  have dd: "distinct (map ?g ?due)"
    unfolding tick_due_def using dist by (intro select_due_distinct) simp
  from distinct_nth_notin_take [OF dd ij jl]
  have notin: "enr_id ?e \<notin> set (map ?g (take i ?due))" .
  from reach have st: "s = flow_state (tick_loop w (tick_isOkWindow w d) (tick_quietStart d) (w_now w) 0
                                  (take i ?due) (tick_init w d))"
    by (simp add: tick_reaches_def)
  have "?due ! j \<in> set ?due" using jl by simp
  then have "?e \<in> fst ` set ?due" by (rule imageI)
  then have "?e \<in> set (map fst ?due)" by simp
  with select_due_fst [of "ts_store (tick_init w d)" "w_now w" batch]
  have mem: "?e \<in> set (marketing_enrollments d)" by (auto simp: tick_due_def)
  have "find_enr (ts_store s) (enr_id ?e) = find_enr (ts_store (tick_init w d)) (enr_id ?e)"
    unfolding st by (rule loop_enr_other [OF notin])
  also have "\<dots> = find_enr d (enr_id ?e)" by (simp add: find_enr_def)
  also have "\<dots> = Some ?e" by (rule find_enr_mem [OF dist mem])
  finally show ?thesis .
qed

text \<open>
  C3. When the tick reaches a row whose contact is not suppressed and whose step exists,
  inside the window, and \<open>take(1)\<close> returns false, the tick ends there: the store it leaves
  is the store in which that row was reached, with only \<open>processed\<close> counted for the row, so
  no later row of the batch is looked at, sent to or written; that row and every later
  row of the batch are in the store exactly as they were selected.
\<close>

theorem tick_rate_limit_stops:
  assumes dist: "distinct (map enr_id (marketing_enrollments d))"
    and reach: "tick_reaches w batch d i s"
    and row: "tick_due w batch d ! i = (e, c)"
    and ns: "\<not> suppressed_get d (enr_contact_id e)"
    and cur: "stepQuery d (enr_campaign_id e) (enr_next_step_order e) = Some st"
    and ok: "tick_isOkWindow w d"
    and lim: "\<not> fst (limiter_take 1 (marketing_config (ts_store s), ts_limiter s))"
  shows "marketingTick w batch d = (ts_store s, Inr (inc_processed (ts_counts s)))
         \<and> (\<forall>j. i \<le> j \<and> j < length (tick_due w batch d) \<longrightarrow>
               find_enr (fst (marketingTick w batch d)) (enr_id (fst (tick_due w batch d ! j)))
                 = Some (fst (tick_due w batch d ! j)))"
proof -
  note R = tick_row [OF dist reach row]
  have step: "tick_step w d i (e, c) s = Break (count inc_processed s)"
    unfolding tick_step_def
    using ns cur ok lim by (intro body_limited [where st = st]) (simp_all add: R(1) R(2))
  have tick: "marketingTick w batch d = (ts_store s, Inr (inc_processed (ts_counts s)))"
    unfolding marketingTick_def R(5) step by simp
  show ?thesis
    unfolding tick using tick_later_rows [OF dist reach] by simp
qed

theorem tick_rate_limit_stops_witness:
  "distinct (map enr_id (marketing_enrollments ex_store_rate1))
   \<and> tick_reaches ex_world 50 ex_store_rate1 1 (ex_state ex_world ex_store_rate1 1)
   \<and> tick_due ex_world 50 ex_store_rate1 ! 1 = (ex_enr ''e2'' ''c2'' 2 100, ex_contact ''c2'' ''Bob'')
   \<and> \<not> suppressed_get ex_store_rate1 ''c2''
   \<and> stepQuery ex_store_rate1 ''welcome'' 2 = Some (ex_step 2 1440 ''Follow up'')
   \<and> tick_isOkWindow ex_world ex_store_rate1
   \<and> \<not> fst (limiter_take 1 (marketing_config (ts_store (ex_state ex_world ex_store_rate1 1)),
                             ts_limiter (ex_state ex_world ex_store_rate1 1)))
   \<and> snd (marketingTick ex_world 50 ex_store_rate1)
       = Inr \<lparr>processed = 2, sent = 0, queued = 1, suppressed = 0, completed = 0, skipped_quiet = 0\<rparr>
   \<and> find_enr (fst (marketingTick ex_world 50 ex_store_rate1)) ''e2'' = Some (ex_enr ''e2'' ''c2'' 2 100)
   \<and> find_enr (fst (marketingTick ex_world 50 ex_store_rate1)) ''e3'' = Some (ex_enr ''e3'' ''c3'' 1 200)"
proof -
  let ?e = "ex_enr ''e2'' ''c2'' 2 100" and ?c = "ex_contact ''c2'' ''Bob''"
  let ?s = "ex_state ex_world ex_store_rate1 1"
  have e: "enr_id ?e = ''e2''" "enr_contact_id ?e = ''c2''" "enr_campaign_id ?e = ''welcome''"
    "enr_next_step_order ?e = 2"
    by (simp_all add: ex_enr_def)
  have h1: "distinct (map enr_id (marketing_enrollments ex_store_rate1))" by code_simp
  have h2: "tick_reaches ex_world 50 ex_store_rate1 1 ?s" by code_simp
  have h3: "tick_due ex_world 50 ex_store_rate1 ! 1 = (?e, ?c)" by code_simp
  have h4: "\<not> suppressed_get ex_store_rate1 ''c2''" by code_simp
  have h5: "stepQuery ex_store_rate1 ''welcome'' 2 = Some (ex_step 2 1440 ''Follow up'')" by code_simp
  have h6: "tick_isOkWindow ex_world ex_store_rate1" by code_simp
  have h7: "\<not> fst (limiter_take 1 (marketing_config (ts_store ?s), ts_limiter ?s))" by code_simp
  have h4': "\<not> suppressed_get ex_store_rate1 (enr_contact_id ?e)" using h4 e by simp
  have h5': "stepQuery ex_store_rate1 (enr_campaign_id ?e) (enr_next_step_order ?e)
               = Some (ex_step 2 1440 ''Follow up'')"
    using h5 e by simp
  have len: "length (tick_due ex_world 50 ex_store_rate1) = 3" by code_simp
  have r3: "tick_due ex_world 50 ex_store_rate1 ! 2 = (ex_enr ''e3'' ''c3'' 1 200, ex_contact ''c3'' ''Carol'')"
    by code_simp
  have cnt: "inc_processed (ts_counts ?s)
               = \<lparr>processed = 2, sent = 0, queued = 1, suppressed = 0, completed = 0, skipped_quiet = 0\<rparr>"
    by code_simp
  note T = tick_rate_limit_stops [OF h1 h2 h3 h4' h5' h6 h7]
  from T have a: "snd (marketingTick ex_world 50 ex_store_rate1) = Inr (inc_processed (ts_counts ?s))"
    by simp
  from T have "find_enr (fst (marketingTick ex_world 50 ex_store_rate1))
                  (enr_id (fst (tick_due ex_world 50 ex_store_rate1 ! 1)))
                = Some (fst (tick_due ex_world 50 ex_store_rate1 ! 1))"
    using len by (elim conjE allE [where x = 1]) simp
  then have b: "find_enr (fst (marketingTick ex_world 50 ex_store_rate1)) ''e2'' = Some ?e"
    unfolding h3 by (simp add: e)
  from T have "find_enr (fst (marketingTick ex_world 50 ex_store_rate1))
                  (enr_id (fst (tick_due ex_world 50 ex_store_rate1 ! 2)))
                = Some (fst (tick_due ex_world 50 ex_store_rate1 ! 2))"
    using len by (elim conjE allE [where x = 2]) simp
  then have c: "find_enr (fst (marketingTick ex_world 50 ex_store_rate1)) ''e3''
                  = Some (ex_enr ''e3'' ''c3'' 1 200)"
    unfolding r3 by (simp add: ex_enr_def)
  from h1 h2 h3 h4 h5 h6 h7 a b c cnt show ?thesis by simp
qed

subsection \<open>The result of a send\<close>






subsection \<open>The counts\<close>

lemma body_counts:
  "processed (ts_counts (flow_state (tick_body w ok qs now i ec s))) = processed (ts_counts s) + 1
   \<and> at_most_one_counted (ts_counts s) (ts_counts (flow_state (tick_body w ok qs now i ec s)))
   \<and> completed (ts_counts s) \<le> completed (ts_counts (flow_state (tick_body w ok qs now i ec s)))
   \<and> completed (ts_counts (flow_state (tick_body w ok qs now i ec s))) \<le> completed (ts_counts s) + 1"
  by (auto simp: tick_body_def Let_def at_most_one_counted_def advance_counts insSend_def
        inc_processed_def inc_sent_def inc_queued_def inc_suppressed_def inc_completed_def
        inc_skipped_quiet_def
      split: prod.splits option.splits jsnum.splits jsdate.splits bool.splits
        send_outcome.splits)

lemma at_most_one_counted_sum:
  "at_most_one_counted k k' \<Longrightarrow>
     sent k' + queued k' + suppressed k' + skipped_quiet k'
       \<le> sent k + queued k + suppressed k + skipped_quiet k + 1"
  by (auto simp: at_most_one_counted_def)

lemma loop_counts:
  "processed (ts_counts s) \<le> processed (ts_counts (flow_state (tick_loop w ok qs now i due s)))
   \<and> processed (ts_counts (flow_state (tick_loop w ok qs now i due s)))
       \<le> processed (ts_counts s) + length due
   \<and> sent (ts_counts (flow_state (tick_loop w ok qs now i due s)))
       + queued (ts_counts (flow_state (tick_loop w ok qs now i due s)))
       + suppressed (ts_counts (flow_state (tick_loop w ok qs now i due s)))
       + skipped_quiet (ts_counts (flow_state (tick_loop w ok qs now i due s)))
       + processed (ts_counts s)
       \<le> sent (ts_counts s) + queued (ts_counts s) + suppressed (ts_counts s)
          + skipped_quiet (ts_counts s)
          + processed (ts_counts (flow_state (tick_loop w ok qs now i due s)))
   \<and> completed (ts_counts (flow_state (tick_loop w ok qs now i due s))) + processed (ts_counts s)
       \<le> completed (ts_counts s) + processed (ts_counts (flow_state (tick_loop w ok qs now i due s)))"
proof (induction due arbitrary: i s)
  case Nil
  show ?case by simp
next
  case (Cons ec due)
  let ?b = "tick_body w ok qs now i ec s"
  note B = body_counts [of w ok qs now i ec s]
  from B have p: "processed (ts_counts (flow_state ?b)) = processed (ts_counts s) + 1" by simp
  from B at_most_one_counted_sum [of "ts_counts s" "ts_counts (flow_state ?b)"]
  have f: "sent (ts_counts (flow_state ?b)) + queued (ts_counts (flow_state ?b))
             + suppressed (ts_counts (flow_state ?b)) + skipped_quiet (ts_counts (flow_state ?b))
           \<le> sent (ts_counts s) + queued (ts_counts s) + suppressed (ts_counts s)
              + skipped_quiet (ts_counts s) + 1"
    by simp
  from B have c: "completed (ts_counts (flow_state ?b)) \<le> completed (ts_counts s) + 1" by simp
  show ?case
  proof (cases ?b)
    case (Continue s')
    from Cons [where i = "Suc i" and s = s'] p f c Continue show ?thesis by simp
  next
    case (Break s')
    with p f c show ?thesis by simp
  next
    case (Throw err s')
    with p f c show ?thesis by simp
  qed
qed

text \<open>
  C9. Whenever the tick returns its counts: \<open>processed\<close> is at most the number of rows
  of the batch, which is at most the batch size when that is not negative; the sum of
  \<open>sent\<close>, \<open>queued\<close>, \<open>suppressed\<close> and \<open>skipped_quiet\<close> is at most \<open>processed\<close>, and so is
  \<open>completed\<close>. Every iteration of the loop adds one to \<open>processed\<close>, increments at most
  one of the four counters, and adds at most one to \<open>completed\<close>.
\<close>

theorem tick_counts_bounded:
  "(snd (marketingTick w batch d) = Inr cnt \<longrightarrow>
      (0 \<le> batch \<longrightarrow> int (processed cnt) \<le> batch)
      \<and> processed cnt \<le> length (tick_due w batch d)
      \<and> sent cnt + queued cnt + suppressed cnt + skipped_quiet cnt \<le> processed cnt
      \<and> completed cnt \<le> processed cnt)
   \<and> processed (ts_counts (flow_state (tick_body w' ok qs now i ec s))) = processed (ts_counts s) + 1
   \<and> at_most_one_counted (ts_counts s) (ts_counts (flow_state (tick_body w' ok qs now i ec s)))
   \<and> completed (ts_counts (flow_state (tick_body w' ok qs now i ec s))) \<le> completed (ts_counts s) + 1"
proof -
  let ?fl = "tick_loop w (tick_isOkWindow w d) (tick_quietStart d) (w_now w) 0
               (tick_due w batch d) (tick_init w d)"
  have tick: "(0 \<le> batch \<longrightarrow> int (processed cnt) \<le> batch)
      \<and> processed cnt \<le> length (tick_due w batch d)
      \<and> sent cnt + queued cnt + suppressed cnt + skipped_quiet cnt \<le> processed cnt
      \<and> completed cnt \<le> processed cnt"
    if r: "snd (marketingTick w batch d) = Inr cnt"
  proof -
    from r have cnt: "cnt = ts_counts (flow_state ?fl)"
      by (cases ?fl) (simp_all add: marketingTick_def)
    note L = loop_counts [where s = "tick_init w d" and w = w and ok = "tick_isOkWindow w d"
        and qs = "tick_quietStart d" and now = "w_now w" and i = 0 and due = "tick_due w batch d"]
    from L have pl: "processed cnt \<le> length (tick_due w batch d)"
      and four: "sent cnt + queued cnt + suppressed cnt + skipped_quiet cnt \<le> processed cnt"
      and comp: "completed cnt \<le> processed cnt"
      unfolding cnt by simp_all
    have "int (processed cnt) \<le> batch" if "0 \<le> batch"
    proof -
      from select_due_length [OF that, of "ts_store (tick_init w d)" "w_now w"]
      have "int (length (tick_due w batch d)) \<le> batch" by (simp add: tick_due_def)
      with pl show ?thesis by simp
    qed
    with pl four comp show ?thesis by simp
  qed
  from tick body_counts [of w' ok qs now i ec s] show ?thesis by simp
qed

theorem tick_counts_bounded_witness:
  "snd (marketingTick ex_world 50 ex_store_tick)
     = Inr \<lparr>processed = 3, sent = 0, queued = 2, suppressed = 1, completed = 1, skipped_quiet = 0\<rparr>
   \<and> (0::int) \<le> 50
   \<and> int (processed \<lparr>processed = 3, sent = 0, queued = 2, suppressed = 1, completed = 1,
                     skipped_quiet = 0\<rparr>) \<le> 50
   \<and> at_most_one_counted (ts_counts (tick_init ex_world ex_store_tick))
        (ts_counts (flow_state (tick_body ex_world True (Num 9) (10 * hour_ms) 0
           (ex_enr ''e1'' ''c1'' 1 0, ex_contact ''c1'' ''alicia'') (tick_init ex_world ex_store_tick))))"
proof -
  let ?cnt = "\<lparr>processed = 3, sent = 0, queued = 2, suppressed = 1, completed = 1, skipped_quiet = 0\<rparr>"
  have h: "snd (marketingTick ex_world 50 ex_store_tick) = Inr ?cnt" by code_simp
  note T = tick_counts_bounded [of ex_world 50 ex_store_tick ?cnt ex_world True "Num 9" "10 * hour_ms" 0
      "(ex_enr ''e1'' ''c1'' 1 0, ex_contact ''c1'' ''alicia'')" "tick_init ex_world ex_store_tick"]
  from T h have "int (processed ?cnt) \<le> 50" by simp
  moreover from T have "at_most_one_counted (ts_counts (tick_init ex_world ex_store_tick))
        (ts_counts (flow_state (tick_body ex_world True (Num 9) (10 * hour_ms) 0
           (ex_enr ''e1'' ''c1'' 1 0, ex_contact ''c1'' ''alicia'') (tick_init ex_world ex_store_tick))))"
    by simp
  ultimately show ?thesis using h by simp
qed

subsection \<open>Completion\<close>

lemma find_enr_config [simp]: "find_enr (d\<lparr>marketing_config := x\<rparr>) = find_enr d"
  by (intro ext) (simp add: find_enr_def)

lemma find_enr_sends [simp]: "find_enr (d\<lparr>marketing_sends := x\<rparr>) = find_enr d"
  by (intro ext) (simp add: find_enr_def)

lemma stepQuery_config [simp]: "stepQuery (d\<lparr>marketing_config := x\<rparr>) = stepQuery d"
  by (intro ext) (simp add: stepQuery_def)

lemma stepQuery_sends [simp]: "stepQuery (d\<lparr>marketing_sends := x\<rparr>) = stepQuery d"
  by (intro ext) (simp add: stepQuery_def)








end
